theory Spec2Isabelle
  imports Complex_Main
begin

section \<open>Arrays\<close>

text \<open>
  The backbone is written against the array library it imports. An array is a shape, a
  dtype tag and its elements, addressed by an index tuple. Elements are exact numbers:
  the rounding of a cast is not part of the model, so \<open>astype\<close> only changes the tag.
  The operations of the library are defined below as far as the backbone reaches them,
  with the meaning they have in that library: \<open>reshape\<close> and \<open>flatten\<close> keep the
  row-major order of the elements, elementwise operations broadcast, \<open>split\<close> with a
  list cuts at the given indices, and an operation whose shapes do not fit raises an
  error. Reading a name that the library or its arrays do not have raises
  \<open>AttributeError\<close>.
\<close>

datatype error = AssertionError | IndexError | RuntimeError | AttributeError | ValueError

datatype dtype = Float32 | BFloat16 | Float16 | Int64

record 'a array =
  shape :: "nat list"
  dtype :: dtype
  elem :: "nat list \<Rightarrow> 'a"

text \<open>An index tuple addresses an element of the array when it is within the shape.\<close>

fun in_range :: "nat list \<Rightarrow> nat list \<Rightarrow> bool" where
  "in_range [] [] = True"
| "in_range (n # ns) (i # js) = (i < n \<and> in_range ns js)"
| "in_range _ _ = False"

text \<open>
  A bound of a Python slice on an axis of length \<open>n\<close>: a negative bound counts from
  the end, and every bound is clamped into \<open>[0, n]\<close>.
\<close>

definition slice_bound :: "nat \<Rightarrow> int \<Rightarrow> nat" where
  "slice_bound n i = (if i < 0 then nat (max 0 (int n + i)) else min n (nat i))"

text \<open>
  Broadcasting: an operand of shape \<open>src\<close> is read at the result's index \<open>idx\<close> with
  its axes aligned to the right and every axis of size 1 read at 0.
\<close>

definition bcast :: "nat list \<Rightarrow> nat list \<Rightarrow> nat list" where
  "bcast src idx = map2 (\<lambda>n i. if n = 1 then 0 else i) src (drop (length idx - length src) idx)"

definition expandable :: "nat list \<Rightarrow> nat list \<Rightarrow> bool" where
  "expandable src tgt =
     (length src \<le> length tgt \<and>
      list_all2 (\<lambda>s t. s = t \<or> s = 1) src (drop (length tgt - length src) tgt))"

text \<open>Errors are values: a computation yields an error or a result, and the first error ends it.\<close>

definition ebind :: "error + 'a \<Rightarrow> ('a \<Rightarrow> error + 'b) \<Rightarrow> error + 'b" where
  "ebind m f = (case m of Inl e \<Rightarrow> Inl e | Inr x \<Rightarrow> f x)"

text \<open>
  Elements are stored in row-major order: \<open>ravel\<close> is the flat position of an index
  tuple and \<open>unravel\<close> the index tuple at a flat position.
\<close>

fun ravel :: "nat list \<Rightarrow> nat list \<Rightarrow> nat" where
  "ravel (n # ns) (i # js) = i * prod_list ns + ravel ns js"
| "ravel _ _ = 0"

fun unravel :: "nat list \<Rightarrow> nat \<Rightarrow> nat list" where
  "unravel [] k = []"
| "unravel (n # ns) k = (k div prod_list ns) # unravel ns (k mod prod_list ns)"

text \<open>
  The shape a \<open>reshape\<close> asks for, with at most one dimension given as \<open>-1\<close> and
  inferred from the number of elements. The request is rejected when the element
  counts differ, when the inferred dimension is not a whole number, or when it is
  ambiguous because the other dimensions multiply to 0.
\<close>

definition infer_shape :: "nat \<Rightarrow> int list \<Rightarrow> error + nat list" where
  "infer_shape numel dims =
     (let known = prod_list (map nat (filter (\<lambda>d. d \<noteq> -1) dims)) in
      if (\<exists>d \<in> set dims. d < -1) \<or> 1 < length (filter (\<lambda>d. d = -1) dims) then Inl RuntimeError
      else if -1 \<in> set dims then
        (if known = 0 \<or> numel mod known \<noteq> 0 then Inl RuntimeError
         else Inr (map (\<lambda>d. if d = -1 then numel div known else nat d) dims))
      else if known = numel then Inr (map nat dims)
      else Inl RuntimeError)"

definition reshape :: "int list \<Rightarrow> 'a array \<Rightarrow> error + 'a array" where
  "reshape dims a =
     ebind (infer_shape (prod_list (shape a)) dims)
       (\<lambda>shp. Inr \<lparr>shape = shp, dtype = dtype a,
                    elem = (\<lambda>idx. elem a (unravel (shape a) (ravel shp idx)))\<rparr>)"

text \<open>\<open>a.flatten(start)\<close> merges the axes from \<open>start\<close> on into one.\<close>

definition flatten :: "nat \<Rightarrow> 'a array \<Rightarrow> error + 'a array" where
  "flatten start a =
     (if start < length (shape a)
      then reshape (map int (take start (shape a)) @ [int (prod_list (drop start (shape a)))]) a
      else Inl IndexError)"

definition astype :: "dtype \<Rightarrow> 'a array \<Rightarrow> 'a array" where
  "astype dt a = a\<lparr>dtype := dt\<rparr>"

text \<open>\<open>a[..., j]\<close>: index \<open>j\<close> of the last axis.\<close>

definition select_last :: "nat \<Rightarrow> 'a array \<Rightarrow> error + 'a array" where
  "select_last j a =
     (if shape a \<noteq> [] \<and> j < last (shape a)
      then Inr \<lparr>shape = butlast (shape a), dtype = dtype a, elem = (\<lambda>idx. elem a (idx @ [j]))\<rparr>
      else Inl IndexError)"

text \<open>
  The shape of an elementwise operation: the operands' shapes are aligned to the right,
  and two sizes are compatible when they are equal or one of them is 1.
\<close>

fun broadcast_rev :: "nat list \<Rightarrow> nat list \<Rightarrow> nat list option" where
  "broadcast_rev [] ys = Some ys"
| "broadcast_rev xs [] = Some xs"
| "broadcast_rev (x # xs) (y # ys) =
     (if x = y \<or> x = 1 \<or> y = 1
      then map_option (\<lambda>r. (if x = 1 then y else x) # r) (broadcast_rev xs ys)
      else None)"

definition broadcast_shapes :: "nat list \<Rightarrow> nat list \<Rightarrow> nat list option" where
  "broadcast_shapes xs ys = map_option rev (broadcast_rev (rev xs) (rev ys))"

text \<open>The dtype of an elementwise operation on two arrays.\<close>

definition promote :: "dtype \<Rightarrow> dtype \<Rightarrow> dtype" where
  "promote a b = (if a = b then a else if a = Int64 then b else if b = Int64 then a else Float32)"

definition binop :: "('a \<Rightarrow> 'a \<Rightarrow> 'a) \<Rightarrow> 'a array \<Rightarrow> 'a array \<Rightarrow> error + 'a array" where
  "binop f a b =
     (case broadcast_shapes (shape a) (shape b) of
        None \<Rightarrow> Inl RuntimeError
      | Some shp \<Rightarrow>
          Inr \<lparr>shape = shp, dtype = promote (dtype a) (dtype b),
               elem = (\<lambda>idx. f (elem a (bcast (shape a) idx)) (elem b (bcast (shape b) idx)))\<rparr>)"

definition mul :: "'a::times array \<Rightarrow> 'a array \<Rightarrow> error + 'a array" where
  "mul = binop (\<lambda>x y. x * y)"

definition add :: "'a::plus array \<Rightarrow> 'a array \<Rightarrow> error + 'a array" where
  "add = binop (\<lambda>x y. x + y)"

definition sub :: "'a::minus array \<Rightarrow> 'a array \<Rightarrow> error + 'a array" where
  "sub = binop (\<lambda>x y. x - y)"

text \<open>\<open>stack([a, b], axis=-1)\<close>: two arrays of one shape, joined along a new last axis.\<close>

definition stack_last :: "'a array \<Rightarrow> 'a array \<Rightarrow> error + 'a array" where
  "stack_last a b =
     (if shape a = shape b
      then Inr \<lparr>shape = shape a @ [2], dtype = promote (dtype a) (dtype b),
                elem = (\<lambda>idx. if last idx = 0 then elem a (butlast idx) else elem b (butlast idx))\<rparr>
      else Inl RuntimeError)"

definition map_array :: "('a \<Rightarrow> 'b) \<Rightarrow> dtype \<Rightarrow> 'a array \<Rightarrow> 'b array" where
  "map_array f dt a = \<lparr>shape = shape a, dtype = dt, elem = (\<lambda>idx. f (elem a idx))\<rparr>"

text \<open>\<open>arange(start, stop, step)\<close> for a positive step.\<close>

definition arange :: "int \<Rightarrow> int \<Rightarrow> int \<Rightarrow> int array" where
  "arange start stop step =
     \<lparr>shape = [nat ((stop - start + step - 1) div step)], dtype = Int64,
      elem = (\<lambda>idx. start + int (hd idx) * step)\<rparr>"

text \<open>\<open>a[:stop]\<close> on the first axis.\<close>

definition take_first :: "int \<Rightarrow> 'a array \<Rightarrow> error + 'a array" where
  "take_first stop a =
     (case shape a of
        [] \<Rightarrow> Inl IndexError
      | n # ns \<Rightarrow> Inr (a\<lparr>shape := slice_bound n stop # ns\<rparr>))"

text \<open>\<open>outer(a, b)\<close> of two vectors.\<close>

definition outer :: "'a::times array \<Rightarrow> 'a array \<Rightarrow> error + 'a array" where
  "outer a b =
     (case (shape a, shape b) of
        ([n], [m]) \<Rightarrow>
          Inr \<lparr>shape = [n, m], dtype = promote (dtype a) (dtype b),
               elem = (\<lambda>idx. elem a [idx ! 0] * elem b [idx ! 1])\<rparr>
      | _ \<Rightarrow> Inl RuntimeError)"

text \<open>
  \<open>a.split(indices, axis=-1)\<close> with a list: the last axis is cut at the given indices,
  each clamped to its length, so that a list of \<open>n\<close> indices gives \<open>n + 1\<close> pieces.
\<close>

definition split_indices :: "nat list \<Rightarrow> 'a array \<Rightarrow> error + 'a array list" where
  "split_indices idxs a =
     (if shape a = [] then Inl ValueError
      else
        (let n = last (shape a);
             bounds = map (min n) idxs;
             starts = 0 # bounds;
             stops = bounds @ [n]
         in Inr (map (\<lambda>j. \<lparr>shape = butlast (shape a) @ [stops ! j - starts ! j], dtype = dtype a,
                                elem = (\<lambda>idx. elem a (butlast idx @ [starts ! j + last idx]))\<rparr>)
                     [0..<length idxs + 1])))"

text \<open>
  \<open>nn.Linear\<close> without bias: the weight has shape (out_features, in_features) and
  acts on the last axis; a last axis of another length raises \<open>ValueError\<close>.
\<close>

definition linear :: "real array \<Rightarrow> real array \<Rightarrow> error + real array" where
  "linear weight x =
     (case shape weight of
        [n_out, n_in] \<Rightarrow>
          if shape x \<noteq> [] \<and> last (shape x) = n_in
          then Inr \<lparr>shape = butlast (shape x) @ [n_out], dtype = promote (dtype x) (dtype weight),
                    elem = (\<lambda>idx. \<Sum>n<n_in. elem x (butlast idx @ [n]) * elem weight [last idx, n])\<rparr>
          else Inl ValueError
      | _ \<Rightarrow> Inl ValueError)"

section \<open>Rotary embedding\<close>

text \<open>
  \<open>precompute_freqs_cis\<close>. The inverse frequencies and their outer product with the
  positions are computed; the next line reads \<open>polar\<close> from the library, which has no
  such function. The power \<open>base ** e\<close> is the real power of a positive base.
\<close>

definition precompute_freqs_cis :: "int \<Rightarrow> int \<Rightarrow> real \<Rightarrow> error + real array" where
  "precompute_freqs_cis seq_len n_elem base =
     ebind (take_first (n_elem div 2) (arange 0 n_elem 2)) (\<lambda>evens.
       let freqs = map_array (\<lambda>e. 1 / (base powr (real_of_int e / real_of_int n_elem))) Float32 evens;
           t = map_array real_of_int Float32 (arange 0 seq_len 1)
       in ebind (outer t freqs) (\<lambda>freqs. Inl AttributeError))"

text \<open>\<open>apply_rotary_emb\<close>.\<close>

definition apply_rotary_emb :: "real array \<Rightarrow> real array \<Rightarrow> error + real array" where
  "apply_rotary_emb x freqs_cis =
     ebind (reshape (map int (butlast (shape x)) @ [-1, 2]) (astype Float32 x)) (\<lambda>xshaped.
     if length (shape xshaped) < 4 then Inl IndexError else
     ebind (reshape [-1, int (shape xshaped ! 1), 1, int (shape xshaped ! 3), 2] freqs_cis) (\<lambda>freqs_cis.
     ebind (select_last 0 xshaped) (\<lambda>x0.
     ebind (select_last 1 xshaped) (\<lambda>x1.
     ebind (select_last 0 freqs_cis) (\<lambda>f0.
     ebind (select_last 1 freqs_cis) (\<lambda>f1.
     ebind (ebind (mul x0 f0) (\<lambda>p. ebind (mul x1 f1) (\<lambda>q. sub p q))) (\<lambda>re.
     ebind (ebind (mul x1 f0) (\<lambda>p. ebind (mul x0 f1) (\<lambda>q. add p q))) (\<lambda>im.
     ebind (stack_last re im) (\<lambda>x_out2.
     ebind (flatten 3 x_out2) (\<lambda>x_out2.
     Inr (astype (dtype x) x_out2)))))))))))"

text \<open>\<open>x[:, :, perm, :]\<close>: the same array with its heads (axis 2) read in another order.\<close>

definition permute_heads :: "(nat \<Rightarrow> nat) \<Rightarrow> 'a array \<Rightarrow> 'a array" where
  "permute_heads perm x = x\<lparr>elem := (\<lambda>idx. elem x (idx[2 := perm (idx ! 2)]))\<rparr>"

section \<open>Inference parameters and the key/value cache\<close>

text \<open>
  \<open>InferenceParams\<close> comes from \<open>zonos.config\<close>; the backbone reads the four fields
  below. The cache dictionary maps a layer index to the pair that
  \<open>TransformerBlock.allocate_inference_cache\<close> returns: the buffer and \<open>None\<close>.
\<close>

record 'a InferenceParams =
  batch_size_offset :: int
  seqlen_offset :: int
  lengths_per_sample :: "int array"
  key_value_memory_dict :: "int \<rightharpoonup> ('a array \<times> unit)"

text \<open>
  \<open>a[b0:b1, s0:s1, c, ...] = val\<close>: the window of the first two axes at index \<open>c\<close> of
  the third is overwritten with \<open>val\<close>, broadcast to the window's shape; a value that
  does not broadcast to it is rejected. The buffer keeps its shape and dtype.
\<close>

definition setitem_window ::
  "'a array \<Rightarrow> int \<Rightarrow> int \<Rightarrow> int \<Rightarrow> int \<Rightarrow> nat \<Rightarrow> 'a array \<Rightarrow> error + 'a array" where
  "setitem_window a b0 b1 s0 s1 c val =
     (case shape a of
        nb # ns # nc # rest \<Rightarrow>
          if c < nc then
            (let lb = slice_bound nb b0; hb = slice_bound nb b1;
                 ls = slice_bound ns s0; hs = slice_bound ns s1
             in if expandable (shape val) ((hb - lb) # (hs - ls) # rest)
                then Inr (a\<lparr>elem := (\<lambda>idx. case idx of
                            b # s # c' # r \<Rightarrow>
                              if lb \<le> b \<and> b < hb \<and> ls \<le> s \<and> s < hs \<and> c' = c
                              then elem val (bcast (shape val) ((b - lb) # (s - ls) # r))
                              else elem a idx
                          | _ \<Rightarrow> elem a idx)\<rparr>)
                else Inl RuntimeError)
          else Inl IndexError
      | _ \<Rightarrow> Inl IndexError)"

text \<open>\<open>a[b0:b1, :s1, ...]\<close>: the rows of the batch window, each cut to its first \<open>s1\<close> positions.\<close>

definition getitem_prefix :: "'a array \<Rightarrow> int \<Rightarrow> int \<Rightarrow> int \<Rightarrow> error + 'a array" where
  "getitem_prefix a b0 b1 s1 =
     (case shape a of
        nb # ns # rest \<Rightarrow>
          (let lb = slice_bound nb b0; hb = slice_bound nb b1; hs = slice_bound ns s1
           in Inr \<lparr>shape = (hb - lb) # hs # rest, dtype = dtype a,
                   elem = (\<lambda>idx. case idx of b # r \<Rightarrow> elem a ((b + lb) # r) | [] \<Rightarrow> elem a [])\<rparr>)
      | _ \<Rightarrow> Inl IndexError)"

text \<open>
  \<open>_update_kv_cache\<close>. The buffer is mutated in place, so the function returns the
  inference parameters with the buffer as the call leaves it, next to the result or the
  error raised. The three assertions come before the first write; the assertion that the
  buffer is not \<open>None\<close> follows reads of its shape and cannot fail.
\<close>

definition update_kv_cache ::
  "'a array \<Rightarrow> 'a array \<Rightarrow> 'a InferenceParams \<Rightarrow> int \<Rightarrow> (error + 'a array) \<times> 'a InferenceParams" where
  "update_kv_cache k v inference_params layer_idx =
     (case key_value_memory_dict inference_params layer_idx of
        None \<Rightarrow> (Inl AssertionError, inference_params)
      | Some (kv_cache, u) \<Rightarrow>
         (case shape k of
            k0 # k1 # _ \<Rightarrow>
             (let batch_start = batch_size_offset inference_params;
                  batch_end = batch_start + int k0;
                  sequence_start = seqlen_offset inference_params;
                  sequence_end = sequence_start + int k1
              in case shape kv_cache of
                   [] \<Rightarrow> (Inl IndexError, inference_params)
                 | c0 # ctail \<Rightarrow>
                    if \<not> batch_end \<le> int c0 then (Inl AssertionError, inference_params)
                    else
                     (case ctail of
                        [] \<Rightarrow> (Inl IndexError, inference_params)
                      | c1 # _ \<Rightarrow>
                         if \<not> sequence_end \<le> int c1 then (Inl AssertionError, inference_params)
                         else
                          (case setitem_window kv_cache batch_start batch_end
                                  sequence_start sequence_end 0 k of
                             Inl e \<Rightarrow> (Inl e, inference_params)
                           | Inr kv1 \<Rightarrow>
                              (case setitem_window kv1 batch_start batch_end
                                      sequence_start sequence_end 1 v of
                                 Inl e \<Rightarrow>
                                   (Inl e, inference_params\<lparr>key_value_memory_dict :=
                                      (key_value_memory_dict inference_params)(layer_idx \<mapsto> (kv1, u))\<rparr>)
                               | Inr kv2 \<Rightarrow>
                                   (getitem_prefix kv2 batch_start batch_end sequence_end,
                                    inference_params\<lparr>key_value_memory_dict :=
                                      (key_value_memory_dict inference_params)(layer_idx \<mapsto> (kv2, u))\<rparr>)))))
          | _ \<Rightarrow> (Inl IndexError, inference_params)))"

text \<open>
  A sequence of incremental writes to one layer, as the generation loop issues them:
  after each write the sequence offset advances by the length of the chunk written. An
  error ends the session. The result lists what each write returned.
\<close>

definition chunk_len :: "'a array \<times> 'a array \<Rightarrow> nat" where
  "chunk_len kv = shape (fst kv) ! 1"

fun incremental_writes ::
  "('a array \<times> 'a array) list \<Rightarrow> 'a InferenceParams \<Rightarrow> int \<Rightarrow> (error + 'a array) list" where
  "incremental_writes [] inference_params layer_idx = []"
| "incremental_writes (kv # rest) inference_params layer_idx =
     (case update_kv_cache (fst kv) (snd kv) inference_params layer_idx of
        (Inl e, params') \<Rightarrow> [Inl e]
      | (Inr prefix, params') \<Rightarrow>
          Inr prefix # incremental_writes rest
            (params'\<lparr>seqlen_offset := seqlen_offset params' + int (chunk_len kv)\<rparr>) layer_idx)"

text \<open>The sequence offset at which write number \<open>j\<close> of the sequence begins.\<close>

definition offset_before :: "('a array \<times> 'a array) list \<Rightarrow> nat \<Rightarrow> nat" where
  "offset_before chunks j = sum_list (map chunk_len (take j chunks))"

section \<open>The attention block\<close>

record Attention =
  num_heads :: nat
  num_heads_kv :: nat
  head_dim :: nat
  layer_idx :: int
  in_proj :: "real array"
  out_proj :: "real array"

text \<open>
  \<open>Attention.forward\<close> from the reshape of query, key and value up to the call after
  the cache update: the three arrays are reshaped into heads, query and key are
  rotated, and the cache is updated with the rotated key and the value. The next line
  reads \<open>unbind\<close> from the returned array, which has no such attribute; the lines after
  it are never reached.
\<close>

definition Attention_after_split ::
  "Attention \<Rightarrow> nat \<Rightarrow> nat \<Rightarrow> real array \<Rightarrow> real array \<Rightarrow> real array \<Rightarrow>
   real InferenceParams \<Rightarrow> real array \<Rightarrow> (error + real array) \<times> real InferenceParams" where
  "Attention_after_split self batch_size seqlen q k v inference_params freqs =
     (case ebind (reshape [int batch_size, int seqlen, int (num_heads self), int (head_dim self)] q) (\<lambda>q.
           ebind (reshape [int batch_size, int seqlen, int (num_heads_kv self), int (head_dim self)] k) (\<lambda>k.
           ebind (reshape [int batch_size, int seqlen, int (num_heads_kv self), int (head_dim self)] v) (\<lambda>v.
           ebind (apply_rotary_emb q freqs) (\<lambda>q.
           ebind (apply_rotary_emb k freqs) (\<lambda>k.
           Inr (q, k, v)))))) of
        Inl e \<Rightarrow> (Inl e, inference_params)
      | Inr (q, k, v) \<Rightarrow>
          (case update_kv_cache k v inference_params (layer_idx self) of
             (Inl e, params') \<Rightarrow> (Inl e, params')
           | (Inr kv, params') \<Rightarrow> (Inl AttributeError, params')))"

text \<open>
  \<open>Attention.forward\<close>. The shape of \<open>x\<close> is unpacked into three names, and so is the
  result of splitting the fused projection at the indices \<open>[q_size, kv_size, kv_size]\<close>;
  an unpacking of another number of values raises \<open>ValueError\<close>.
\<close>

definition Attention_forward ::
  "Attention \<Rightarrow> real array \<Rightarrow> real InferenceParams \<Rightarrow> real array \<Rightarrow>
   (error + real array) \<times> real InferenceParams" where
  "Attention_forward self x inference_params freqs =
     (case shape x of
        [batch_size, seqlen, _] \<Rightarrow>
          (let q_size = num_heads self * head_dim self;
               kv_size = num_heads_kv self * head_dim self
           in case ebind (linear (in_proj self) x) (split_indices [q_size, kv_size, kv_size]) of
                Inl e \<Rightarrow> (Inl e, inference_params)
              | Inr parts \<Rightarrow>
                  (case parts of
                     [q, k, v] \<Rightarrow>
                       Attention_after_split self batch_size seqlen q k v inference_params freqs
                   | _ \<Rightarrow> (Inl ValueError, inference_params)))
      | _ \<Rightarrow> (Inl ValueError, inference_params))"

section \<open>The backbone\<close>

text \<open>
  The backbone holds its layers and, once \<open>allocate_inference_cache\<close> has run, the
  rotary table. A layer is represented by its attention block.
\<close>

record MLXZonosBackbone =
  layers :: "Attention list"
  freqs_cis :: "real array option"

text \<open>
  \<open>MLXZonosBackbone.forward\<close>. Its first line reads \<open>hidden_states.shape[1]\<close> and then
  \<open>hidden_states.device\<close>; the library's arrays have no such attribute, so the lines
  after it are never reached.
\<close>

definition MLXZonosBackbone_forward ::
  "MLXZonosBackbone \<Rightarrow> real array \<Rightarrow> real InferenceParams \<Rightarrow>
   (error + real array) \<times> real InferenceParams" where
  "MLXZonosBackbone_forward self hidden_states inference_params =
     (case shape hidden_states of
        batch # seqlen # _ \<Rightarrow> (Inl AttributeError, inference_params)
      | _ \<Rightarrow> (Inl IndexError, inference_params))"


section \<open>Properties of the key/value cache update\<close>

lemma bcast_in_range4:
  "i < a \<Longrightarrow> j < b \<Longrightarrow> h < c \<Longrightarrow> e < d \<Longrightarrow> bcast [a, b, c, d] [i, j, h, e] = [i, j, h, e]"
  by (auto simp: bcast_def)

lemma expandable_refl: "expandable s s"
  by (simp add: expandable_def list_all2_same)

lemma setitem_window_ok:
  assumes "shape a = [B, S, C, H, D]" "shape val = [bc, sc, H, D]" "c < C"
    "0 \<le> b0" "0 \<le> s0" "b0 + int bc \<le> int B" "s0 + int sc \<le> int S"
  shows "\<exists>a'. setitem_window a b0 (b0 + int bc) s0 (s0 + int sc) c val = Inr a' \<and>
     shape a' = shape a \<and> dtype a' = dtype a \<and>
     (\<forall>b s c' h d. h < H \<longrightarrow> d < D \<longrightarrow> elem a' [b, s, c', h, d] =
        (if nat b0 \<le> b \<and> b < nat b0 + bc \<and> nat s0 \<le> s \<and> s < nat s0 + sc \<and> c' = c
         then elem val [b - nat b0, s - nat s0, h, d] else elem a [b, s, c', h, d]))"
proof -
  have 1: "slice_bound B b0 = nat b0" "slice_bound B (b0 + int bc) = nat b0 + bc"
    "slice_bound S s0 = nat s0" "slice_bound S (s0 + int sc) = nat s0 + sc"
    using assms by (auto simp: slice_bound_def)
  have 2: "bcast [bc, sc, H, D] [b - nat b0, s - nat s0, h, d] = [b - nat b0, s - nat s0, h, d]"
    if "nat b0 \<le> b" "b < nat b0 + bc" "nat s0 \<le> s" "s < nat s0 + sc" "h < H" "d < D" for b s h d
    using that by (intro bcast_in_range4) auto
  define a' where "a' = a\<lparr>elem := (\<lambda>idx. case idx of
                            b # s # c' # r \<Rightarrow>
                              if nat b0 \<le> b \<and> b < nat b0 + bc \<and> nat s0 \<le> s \<and> s < nat s0 + sc \<and> c' = c
                              then elem val (bcast (shape val) ((b - nat b0) # (s - nat s0) # r))
                              else elem a idx
                          | _ \<Rightarrow> elem a idx)\<rparr>"
  have 3: "setitem_window a b0 (b0 + int bc) s0 (s0 + int sc) c val = Inr a'"
    unfolding setitem_window_def a'_def using assms(1-3)
    by (simp add: 1 expandable_refl Let_def)
  have 4: "elem a' [b, s, c', h, d] =
        (if nat b0 \<le> b \<and> b < nat b0 + bc \<and> nat s0 \<le> s \<and> s < nat s0 + sc \<and> c' = c
         then elem val [b - nat b0, s - nat s0, h, d] else elem a [b, s, c', h, d])"
    if "h < H" "d < D" for b s c' h d
  proof (cases "nat b0 \<le> b \<and> b < nat b0 + bc \<and> nat s0 \<le> s \<and> s < nat s0 + sc \<and> c' = c")
    case True
    then show ?thesis using 2[of b s h d] that assms(2) by (simp add: a'_def)
  next
    case False
    then show ?thesis by (auto simp add: a'_def)
  qed
  have 5: "shape a' = shape a" "dtype a' = dtype a" by (simp_all add: a'_def)
  show ?thesis using 3 4 5 by blast
qed

lemma getitem_prefix_ok:
  assumes "shape a = B # S # rest" "0 \<le> b0" "b0 + int bc \<le> int B" "0 \<le> s1" "s1 \<le> int S"
  shows "\<exists>p. getitem_prefix a b0 (b0 + int bc) s1 = Inr p \<and>
     shape p = bc # nat s1 # rest \<and> dtype p = dtype a \<and>
     (\<forall>b r. elem p (b # r) = elem a ((b + nat b0) # r))"
proof -
  have 1: "slice_bound B b0 = nat b0" "slice_bound B (b0 + int bc) = nat b0 + bc"
    "slice_bound S s1 = nat s1"
    using assms by (auto simp: slice_bound_def)
  show ?thesis
    unfolding getitem_prefix_def using assms(1)
    by (simp add: 1 Let_def)
qed

lemma update_kv_cache_ok:
  assumes "key_value_memory_dict ip layer = Some (cache, u)"
    and "shape cache = [B, S, 2, H, D]"
    and "shape k = [bc, sc, H, D]" and "shape v = [bc, sc, H, D]"
    and "0 \<le> batch_size_offset ip" and "0 \<le> seqlen_offset ip"
    and "batch_size_offset ip + int bc \<le> int B" and "seqlen_offset ip + int sc \<le> int S"
  shows "\<exists>prefix cache'.
     update_kv_cache k v ip layer =
       (Inr prefix, ip\<lparr>key_value_memory_dict := (key_value_memory_dict ip)(layer \<mapsto> (cache', u))\<rparr>) \<and>
     shape cache' = [B, S, 2, H, D] \<and> dtype cache' = dtype cache \<and>
     (\<forall>b s c h d. h < H \<longrightarrow> d < D \<longrightarrow> c < 2 \<longrightarrow>
        elem cache' [b, s, c, h, d] =
          (if nat (batch_size_offset ip) \<le> b \<and> b < nat (batch_size_offset ip) + bc \<and>
              nat (seqlen_offset ip) \<le> s \<and> s < nat (seqlen_offset ip) + sc
           then elem (if c = 0 then k else v)
                  [b - nat (batch_size_offset ip), s - nat (seqlen_offset ip), h, d]
           else elem cache [b, s, c, h, d])) \<and>
     shape prefix = [bc, nat (seqlen_offset ip) + sc, 2, H, D] \<and> dtype prefix = dtype cache \<and>
     (\<forall>b s c h d. elem prefix [b, s, c, h, d] =
        elem cache' [nat (batch_size_offset ip) + b, s, c, h, d])"
proof -
  let ?bo = "batch_size_offset ip" and ?so = "seqlen_offset ip"
  obtain kv1 where kv1: "setitem_window cache ?bo (?bo + int bc) ?so (?so + int sc) 0 k = Inr kv1"
    "shape kv1 = shape cache" "dtype kv1 = dtype cache"
    "\<And>b s c' h d. h < H \<Longrightarrow> d < D \<Longrightarrow> elem kv1 [b, s, c', h, d] =
        (if nat ?bo \<le> b \<and> b < nat ?bo + bc \<and> nat ?so \<le> s \<and> s < nat ?so + sc \<and> c' = 0
         then elem k [b - nat ?bo, s - nat ?so, h, d] else elem cache [b, s, c', h, d])"
    using setitem_window_ok[OF assms(2) assms(3) _ assms(5) assms(6) assms(7) assms(8), of 0]
    by auto
  have s1: "shape kv1 = [B, S, 2, H, D]" using kv1(2) assms(2) by simp
  obtain kv2 where kv2: "setitem_window kv1 ?bo (?bo + int bc) ?so (?so + int sc) 1 v = Inr kv2"
    "shape kv2 = shape kv1" "dtype kv2 = dtype kv1"
    "\<And>b s c' h d. h < H \<Longrightarrow> d < D \<Longrightarrow> elem kv2 [b, s, c', h, d] =
        (if nat ?bo \<le> b \<and> b < nat ?bo + bc \<and> nat ?so \<le> s \<and> s < nat ?so + sc \<and> c' = 1
         then elem v [b - nat ?bo, s - nat ?so, h, d] else elem kv1 [b, s, c', h, d])"
    using setitem_window_ok[OF s1 assms(4) _ assms(5) assms(6) assms(7) assms(8), of 1]
    by auto
  have s2: "shape kv2 = B # S # [2, H, D]" using kv2(2) s1 by simp
  have se: "0 \<le> ?so + int sc" using assms(6) by simp
  obtain p where p: "getitem_prefix kv2 ?bo (?bo + int bc) (?so + int sc) = Inr p"
    "shape p = bc # nat (?so + int sc) # [2, H, D]" "dtype p = dtype kv2"
    "\<And>b r. elem p (b # r) = elem kv2 ((b + nat ?bo) # r)"
    using getitem_prefix_ok[OF s2 assms(5) assms(7) se assms(8)] by auto
  have run: "update_kv_cache k v ip layer =
       (Inr p, ip\<lparr>key_value_memory_dict := (key_value_memory_dict ip)(layer \<mapsto> (kv2, u))\<rparr>)"
    unfolding update_kv_cache_def
    using assms(1,2,3,7,8) kv1(1) kv2(1) p(1) by (simp add: Let_def)
  have el: "elem kv2 [b, s, c, h, d] =
          (if nat ?bo \<le> b \<and> b < nat ?bo + bc \<and> nat ?so \<le> s \<and> s < nat ?so + sc
           then elem (if c = 0 then k else v) [b - nat ?bo, s - nat ?so, h, d]
           else elem cache [b, s, c, h, d])"
    if "h < H" "d < D" "c < 2" for b s c h d
  proof -
    have "c = 0 \<or> c = 1" using that(3) by auto
    then show ?thesis using kv1(4)[OF that(1,2)] kv2(4)[OF that(1,2)] by auto
  qed
  have sp: "shape p = [bc, nat ?so + sc, 2, H, D]"
    using p(2) assms(6) by (simp add: nat_add_distrib)
  have ep: "elem p [b, s, c, h, d] = elem kv2 [nat ?bo + b, s, c, h, d]" for b s c h d
    using p(4)[of b "[s, c, h, d]"] by (simp add: add.commute)
  show ?thesis
    using run s2 kv2(3) kv1(3) el sp p(3) ep by (intro exI[of _ p] exI[of _ kv2]) simp
qed

text \<open>
  Claim C1. On a buffer of shape (batch_size, max_seqlen, 2, num_kv_heads, head_dim), an
  update whose batch and sequence windows are within capacity writes \<open>k\<close> at index 0 and
  \<open>v\<close> at index 1 of axis 2 in the addressed window, leaves every other entry as it was,
  and returns the rows of the batch window from sequence position 0 up to
  \<open>seqlen_offset + seq_chunk\<close>: the whole valid prefix, not only the new slice. The
  offsets are positions in the buffer, so they are not negative.
\<close>

theorem update_kv_cache_writes_and_returns_prefix:
  assumes "key_value_memory_dict ip layer = Some (cache, u)"
    and "shape cache = [B, S, 2, H, D]"
    and "shape k = [bc, sc, H, D]" and "shape v = [bc, sc, H, D]"
    and "0 \<le> batch_size_offset ip" and "0 \<le> seqlen_offset ip"
    and "batch_size_offset ip + int bc \<le> int B" and "seqlen_offset ip + int sc \<le> int S"
  shows "\<exists>prefix cache'.
     update_kv_cache k v ip layer =
       (Inr prefix, ip\<lparr>key_value_memory_dict := (key_value_memory_dict ip)(layer \<mapsto> (cache', u))\<rparr>) \<and>
     shape cache' = [B, S, 2, H, D] \<and> dtype cache' = dtype cache \<and>
     (\<forall>b s c h d. h < H \<longrightarrow> d < D \<longrightarrow> c < 2 \<longrightarrow>
        elem cache' [b, s, c, h, d] =
          (if nat (batch_size_offset ip) \<le> b \<and> b < nat (batch_size_offset ip) + bc \<and>
              nat (seqlen_offset ip) \<le> s \<and> s < nat (seqlen_offset ip) + sc
           then elem (if c = 0 then k else v)
                  [b - nat (batch_size_offset ip), s - nat (seqlen_offset ip), h, d]
           else elem cache [b, s, c, h, d])) \<and>
     shape prefix = [bc, nat (seqlen_offset ip) + sc, 2, H, D] \<and> dtype prefix = dtype cache \<and>
     (\<forall>b s c h d. elem prefix [b, s, c, h, d] =
        elem cache' [nat (batch_size_offset ip) + b, s, c, h, d])"
  using update_kv_cache_ok[OF assms] .

theorem update_kv_cache_writes_and_returns_prefix_witness:
  "\<exists>prefix ip'.
     update_kv_cache
       \<lparr>shape = [1, 2, 1, 2], dtype = Float32, elem = (\<lambda>idx. 10 + int (sum_list idx))\<rparr>
       \<lparr>shape = [1, 2, 1, 2], dtype = Float32, elem = (\<lambda>idx. 20 + int (sum_list idx))\<rparr>
       \<lparr>batch_size_offset = 0, seqlen_offset = 1,
        lengths_per_sample = \<lparr>shape = [1], dtype = Int64, elem = (\<lambda>idx. 1)\<rparr>,
        key_value_memory_dict =
          [0 \<mapsto> (\<lparr>shape = [1, 3, 2, 1, 2], dtype = BFloat16, elem = (\<lambda>idx. 0)\<rparr>, ())]\<rparr>
       0 = (Inr prefix, ip') \<and>
     shape prefix = [1, 3, 2, 1, 2] \<and>
     elem prefix [0, 0, 0, 0, 1] = 0 \<and> elem prefix [0, 1, 0, 0, 1] = 11 \<and>
     elem prefix [0, 2, 0, 0, 1] = 12 \<and> elem prefix [0, 2, 1, 0, 0] = 21"
proof -
  let ?k = "\<lparr>shape = [1, 2, 1, 2], dtype = Float32, elem = (\<lambda>idx. 10 + int (sum_list idx))\<rparr>"
  let ?v = "\<lparr>shape = [1, 2, 1, 2], dtype = Float32, elem = (\<lambda>idx. 20 + int (sum_list idx))\<rparr>"
  let ?cache = "\<lparr>shape = [1, 3, 2, 1, 2], dtype = BFloat16, elem = (\<lambda>idx. 0::int)\<rparr>"
  let ?ip = "\<lparr>batch_size_offset = 0, seqlen_offset = 1,
        lengths_per_sample = \<lparr>shape = [1], dtype = Int64, elem = (\<lambda>idx. 1)\<rparr>,
        key_value_memory_dict = [0 \<mapsto> (?cache, ())]\<rparr>"
  from update_kv_cache_writes_and_returns_prefix[of ?ip 0 ?cache "()" 1 3 1 2 ?k 1 2 ?v]
  obtain prefix cache' where r:
    "update_kv_cache ?k ?v ?ip 0 =
       (Inr prefix, ?ip\<lparr>key_value_memory_dict := (key_value_memory_dict ?ip)(0 \<mapsto> (cache', ()))\<rparr>)"
    "\<And>b s c h d. h < 1 \<Longrightarrow> d < 2 \<Longrightarrow> c < 2 \<Longrightarrow>
        elem cache' [b, s, c, h, d] =
          (if b < 1 \<and> 1 \<le> s \<and> s < 3
           then elem (if c = 0 then ?k else ?v) [b, s - 1, h, d]
           else elem ?cache [b, s, c, h, d])"
    "shape prefix = [1, 3, 2, 1, 2]"
    "\<And>b s c h d. elem prefix [b, s, c, h, d] = elem cache' [b, s, c, h, d]"
    by auto
  have "elem prefix [0, 0, 0, 0, 1] = 0" "elem prefix [0, 1, 0, 0, 1] = 11"
    "elem prefix [0, 2, 0, 0, 1] = 12" "elem prefix [0, 2, 1, 0, 0] = 21"
    by (simp_all add: r(4) r(2))
  then show ?thesis using r(1) r(3) by blast
qed

text \<open>
  Claim C3. For keys and values of the documented shape, the update fails exactly when
  the layer has no buffer in \<open>key_value_memory_dict\<close>, or the batch window ends beyond
  the buffer's batch capacity, or the sequence window ends beyond its sequence
  capacity. Each of these is a failed assertion, raised before the first write: the
  inference parameters, and with them the buffer, are returned as they were.
\<close>

theorem update_kv_cache_precondition_failure:
  assumes "shape k = [bc, sc, H, D]" and "shape v = [bc, sc, H, D]"
    and "0 \<le> batch_size_offset ip" and "0 \<le> seqlen_offset ip"
    and "\<forall>cache u. key_value_memory_dict ip layer = Some (cache, u) \<longrightarrow> shape cache = [B, S, 2, H, D]"
  shows "((\<exists>e. fst (update_kv_cache k v ip layer) = Inl e) \<longleftrightarrow>
            (key_value_memory_dict ip layer = None \<or>
             int B < batch_size_offset ip + int bc \<or> int S < seqlen_offset ip + int sc)) \<and>
         ((key_value_memory_dict ip layer = None \<or>
             int B < batch_size_offset ip + int bc \<or> int S < seqlen_offset ip + int sc) \<longrightarrow>
            update_kv_cache k v ip layer = (Inl AssertionError, ip))"
proof (cases "key_value_memory_dict ip layer")
  case None
  then show ?thesis by (simp add: update_kv_cache_def)
next
  case (Some cu)
  obtain cache u where cu: "cu = (cache, u)" by (cases cu)
  have sh: "shape cache = [B, S, 2, H, D]" using assms(5) Some cu by simp
  show ?thesis
  proof (cases "int B < batch_size_offset ip + int bc \<or> int S < seqlen_offset ip + int sc")
    case True
    then have "update_kv_cache k v ip layer = (Inl AssertionError, ip)"
      unfolding update_kv_cache_def using Some cu sh assms(1) by (auto simp: Let_def)
    then show ?thesis using True by simp
  next
    case False
    then have cap: "batch_size_offset ip + int bc \<le> int B" "seqlen_offset ip + int sc \<le> int S"
      by auto
    from update_kv_cache_ok[OF _ sh assms(1) assms(2) assms(3) assms(4) cap, of layer u]
      Some cu
    obtain prefix ip' where "update_kv_cache k v ip layer = (Inr prefix, ip')" by auto
    then show ?thesis using False Some by simp
  qed
qed

theorem update_kv_cache_precondition_failure_witness:
  "update_kv_cache
       \<lparr>shape = [1, 2, 1, 2], dtype = Float32, elem = (\<lambda>idx. 10 + int (sum_list idx))\<rparr>
       \<lparr>shape = [1, 2, 1, 2], dtype = Float32, elem = (\<lambda>idx. 20 + int (sum_list idx))\<rparr>
       \<lparr>batch_size_offset = 0, seqlen_offset = 2,
        lengths_per_sample = \<lparr>shape = [1], dtype = Int64, elem = (\<lambda>idx. 2)\<rparr>,
        key_value_memory_dict =
          [0 \<mapsto> (\<lparr>shape = [1, 3, 2, 1, 2], dtype = BFloat16, elem = (\<lambda>idx. 0)\<rparr>, ())]\<rparr>
       0 =
     (Inl AssertionError,
       \<lparr>batch_size_offset = 0, seqlen_offset = 2,
        lengths_per_sample = \<lparr>shape = [1], dtype = Int64, elem = (\<lambda>idx. 2)\<rparr>,
        key_value_memory_dict =
          [0 \<mapsto> (\<lparr>shape = [1, 3, 2, 1, 2], dtype = BFloat16, elem = (\<lambda>idx. 0)\<rparr>, ())]\<rparr>)"
proof -
  let ?k = "\<lparr>shape = [1, 2, 1, 2], dtype = Float32, elem = (\<lambda>idx. 10 + int (sum_list idx))\<rparr>"
  let ?v = "\<lparr>shape = [1, 2, 1, 2], dtype = Float32, elem = (\<lambda>idx. 20 + int (sum_list idx))\<rparr>"
  let ?cache = "\<lparr>shape = [1, 3, 2, 1, 2], dtype = BFloat16, elem = (\<lambda>idx. 0::int)\<rparr>"
  let ?ip = "\<lparr>batch_size_offset = 0, seqlen_offset = 2,
        lengths_per_sample = \<lparr>shape = [1], dtype = Int64, elem = (\<lambda>idx. 2)\<rparr>,
        key_value_memory_dict = [0 \<mapsto> (?cache, ())]\<rparr>"
  show ?thesis
    using update_kv_cache_precondition_failure[of ?k 1 2 1 2 ?v ?ip 0 1 3]
    by simp
qed


section \<open>Incremental writes\<close>

lemma incremental_writes_inv:
  assumes "key_value_memory_dict ip l = Some (cache, u)"
    and "shape cache = [B, S, 2, H, D]"
    and "0 \<le> batch_size_offset ip" and "batch_size_offset ip + int bc \<le> int B"
    and "0 \<le> seqlen_offset ip"
    and "seqlen_offset ip + int (sum_list (map chunk_len chunks)) \<le> int S"
    and "\<forall>kv\<in>set chunks. \<exists>sc. shape (fst kv) = [bc, sc, H, D] \<and> shape (snd kv) = [bc, sc, H, D]"
    and "n < length chunks"
  shows "\<exists>prefix. n < length (incremental_writes chunks ip l) \<and>
     incremental_writes chunks ip l ! n = Inr prefix \<and>
     shape prefix = [bc, nat (seqlen_offset ip) + offset_before chunks (Suc n), 2, H, D] \<and>
     (\<forall>b s c h d. s < nat (seqlen_offset ip) \<longrightarrow> h < H \<longrightarrow> d < D \<longrightarrow> c < 2 \<longrightarrow>
        elem prefix [b, s, c, h, d] = elem cache [nat (batch_size_offset ip) + b, s, c, h, d]) \<and>
     (\<forall>j b s c h d. j \<le> n \<longrightarrow> b < bc \<longrightarrow> s < chunk_len (chunks ! j) \<longrightarrow> h < H \<longrightarrow> d < D \<longrightarrow> c < 2 \<longrightarrow>
        elem prefix [b, nat (seqlen_offset ip) + offset_before chunks j + s, c, h, d] =
        elem (if c = 0 then fst (chunks ! j) else snd (chunks ! j)) [b, s, h, d])"
  using assms
proof (induction chunks arbitrary: ip cache n)
  case Nil
  then show ?case by simp
next
  case (Cons kv rest)
  let ?bo = "batch_size_offset ip" and ?so = "seqlen_offset ip"
  obtain sc where sh: "shape (fst kv) = [bc, sc, H, D]" "shape (snd kv) = [bc, sc, H, D]"
    using Cons.prems(7) by auto
  have cl: "chunk_len kv = sc" by (simp add: chunk_len_def sh)
  have cap: "?so + int sc \<le> int S" using Cons.prems(6) cl by simp
  from update_kv_cache_ok[OF Cons.prems(1) Cons.prems(2) sh Cons.prems(3) Cons.prems(5) Cons.prems(4) cap]
  obtain prefix cache' where up:
    "update_kv_cache (fst kv) (snd kv) ip l =
       (Inr prefix, ip\<lparr>key_value_memory_dict := (key_value_memory_dict ip)(l \<mapsto> (cache', u))\<rparr>)"
    "shape cache' = [B, S, 2, H, D]"
    "\<And>b s c h d. h < H \<Longrightarrow> d < D \<Longrightarrow> c < 2 \<Longrightarrow>
        elem cache' [b, s, c, h, d] =
          (if nat ?bo \<le> b \<and> b < nat ?bo + bc \<and> nat ?so \<le> s \<and> s < nat ?so + sc
           then elem (if c = 0 then fst kv else snd kv) [b - nat ?bo, s - nat ?so, h, d]
           else elem cache [b, s, c, h, d])"
    "shape prefix = [bc, nat ?so + sc, 2, H, D]"
    "\<And>b s c h d. elem prefix [b, s, c, h, d] = elem cache' [nat ?bo + b, s, c, h, d]"
    by blast
  define ip' where "ip' = ip\<lparr>key_value_memory_dict := (key_value_memory_dict ip)(l \<mapsto> (cache', u)),
     seqlen_offset := ?so + int sc\<rparr>"
  have run: "incremental_writes (kv # rest) ip l = Inr prefix # incremental_writes rest ip' l"
    by (simp add: up(1) cl ip'_def)
  show ?case
  proof (cases n)
    case 0
    have "offset_before (kv # rest) (Suc 0) = sc" by (simp add: offset_before_def cl)
    moreover have "offset_before (kv # rest) 0 = 0" by (simp add: offset_before_def)
    ultimately show ?thesis
      using 0 run up(3,4,5) cl by (intro exI[of _ prefix]) auto
  next
    case (Suc m)
    have p1: "key_value_memory_dict ip' l = Some (cache', u)" by (simp add: ip'_def)
    have p3: "0 \<le> batch_size_offset ip'" "batch_size_offset ip' + int bc \<le> int B"
      using Cons.prems(3,4) by (simp_all add: ip'_def)
    have p5: "0 \<le> seqlen_offset ip'" using Cons.prems(5) by (simp add: ip'_def)
    have p6: "seqlen_offset ip' + int (sum_list (map chunk_len rest)) \<le> int S"
      using Cons.prems(6) cl by (simp add: ip'_def)
    have p7: "\<forall>kv\<in>set rest. \<exists>sc. shape (fst kv) = [bc, sc, H, D] \<and> shape (snd kv) = [bc, sc, H, D]"
      using Cons.prems(7) by simp
    have p8: "m < length rest" using Cons.prems(8) Suc by simp
    from Cons.IH[OF p1 up(2) p3 p5 p6 p7 p8]
    obtain pm where pm:
      "m < length (incremental_writes rest ip' l)"
      "incremental_writes rest ip' l ! m = Inr pm"
      "shape pm = [bc, nat (seqlen_offset ip') + offset_before rest (Suc m), 2, H, D]"
      "\<And>b s c h d. s < nat (seqlen_offset ip') \<Longrightarrow> h < H \<Longrightarrow> d < D \<Longrightarrow> c < 2 \<Longrightarrow>
        elem pm [b, s, c, h, d] = elem cache' [nat (batch_size_offset ip') + b, s, c, h, d]"
      "\<And>j b s c h d. j \<le> m \<Longrightarrow> b < bc \<Longrightarrow> s < chunk_len (rest ! j) \<Longrightarrow> h < H \<Longrightarrow> d < D \<Longrightarrow> c < 2 \<Longrightarrow>
        elem pm [b, nat (seqlen_offset ip') + offset_before rest j + s, c, h, d] =
        elem (if c = 0 then fst (rest ! j) else snd (rest ! j)) [b, s, h, d]"
      by blast
    have so': "nat (seqlen_offset ip') = nat ?so + sc" "batch_size_offset ip' = ?bo"
      using Cons.prems(5) by (simp_all add: ip'_def nat_add_distrib)
    have ob: "offset_before (kv # rest) (Suc j) = sc + offset_before rest j" for j
      by (simp add: offset_before_def cl)
    have a: "n < length (incremental_writes (kv # rest) ip l)" using run pm(1) Suc by simp
    have b: "incremental_writes (kv # rest) ip l ! n = Inr pm" using run pm(2) Suc by simp
    have c: "shape pm = [bc, nat ?so + offset_before (kv # rest) (Suc n), 2, H, D]"
      using pm(3) so' ob Suc by simp
    have d: "elem pm [b, s, c, h, d] = elem cache [nat ?bo + b, s, c, h, d]"
      if "s < nat ?so" "h < H" "d < D" "c < 2" for b s c h d
    proof -
      have "elem pm [b, s, c, h, d] = elem cache' [nat ?bo + b, s, c, h, d]"
        using pm(4)[of s h d c b] that so' by simp
      also have "\<dots> = elem cache [nat ?bo + b, s, c, h, d]"
        using up(3)[OF that(2,3,4)] that(1) by simp
      finally show ?thesis .
    qed
    have e: "elem pm [b, nat ?so + offset_before (kv # rest) j + s, c, h, d] =
        elem (if c = 0 then fst ((kv # rest) ! j) else snd ((kv # rest) ! j)) [b, s, h, d]"
      if "j \<le> n" "b < bc" "s < chunk_len ((kv # rest) ! j)" "h < H" "d < D" "c < 2" for j b s c h d
    proof (cases j)
      case 0
      have s: "s < sc" using that(3) 0 cl by simp
      have "elem pm [b, nat ?so + s, c, h, d] = elem cache' [nat ?bo + b, nat ?so + s, c, h, d]"
        using pm(4)[of "nat ?so + s" h d c b] that s so' by simp
      also have "\<dots> = elem (if c = 0 then fst kv else snd kv) [b, s, h, d]"
        using up(3)[OF that(4,5,6), of "nat ?bo + b" "nat ?so + s"] that(2) s by simp
      finally show ?thesis using 0 by (simp add: offset_before_def)
    next
      case (Suc j')
      have "j' \<le> m" using that(1) Suc \<open>n = Suc m\<close> by simp
      from pm(5)[OF this that(2) _ that(4,5,6), of s] that(3) Suc
      show ?thesis by (simp add: so' ob add.assoc)
    qed
    show ?thesis using a b c d e by (intro exI[of _ pm]) blast
  qed
qed

text \<open>
  Claim C2. In a sequence of incremental writes to one layer that starts at sequence
  offset 0, with chunk lengths summing to at most \<open>max_seqlen\<close>, every write succeeds;
  the prefix that write number \<open>n\<close> returns has sequence length equal to the cumulative
  offset after that write, and at the positions before the offset at which the write
  began it holds exactly the keys and values stored by the earlier writes.
\<close>

theorem incremental_writes_prefix:
  assumes "key_value_memory_dict ip l = Some (cache, u)"
    and "shape cache = [B, S, 2, H, D]"
    and "0 \<le> batch_size_offset ip" and "batch_size_offset ip + int bc \<le> int B"
    and "seqlen_offset ip = 0"
    and "offset_before chunks (length chunks) \<le> S"
    and "\<forall>kv\<in>set chunks. \<exists>sc. shape (fst kv) = [bc, sc, H, D] \<and> shape (snd kv) = [bc, sc, H, D]"
    and "n < length chunks"
  shows "\<exists>prefix. n < length (incremental_writes chunks ip l) \<and>
     incremental_writes chunks ip l ! n = Inr prefix \<and>
     shape prefix = [bc, offset_before chunks (Suc n), 2, H, D] \<and>
     (\<forall>j b s c h d. j < n \<longrightarrow> b < bc \<longrightarrow> s < chunk_len (chunks ! j) \<longrightarrow> h < H \<longrightarrow> d < D \<longrightarrow> c < 2 \<longrightarrow>
        elem prefix [b, offset_before chunks j + s, c, h, d] =
        elem (if c = 0 then fst (chunks ! j) else snd (chunks ! j)) [b, s, h, d])"
proof -
  have 5: "0 \<le> seqlen_offset ip" using assms(5) by simp
  have 6: "seqlen_offset ip + int (sum_list (map chunk_len chunks)) \<le> int S"
    using assms(5,6) by (simp add: offset_before_def)
  from incremental_writes_inv[OF assms(1-4) 5 6 assms(7,8)]
  obtain prefix where p: "n < length (incremental_writes chunks ip l)"
     "incremental_writes chunks ip l ! n = Inr prefix"
     "shape prefix = [bc, nat (seqlen_offset ip) + offset_before chunks (Suc n), 2, H, D]"
     "\<And>j b s c h d. j \<le> n \<Longrightarrow> b < bc \<Longrightarrow> s < chunk_len (chunks ! j) \<Longrightarrow> h < H \<Longrightarrow> d < D \<Longrightarrow> c < 2 \<Longrightarrow>
        elem prefix [b, nat (seqlen_offset ip) + offset_before chunks j + s, c, h, d] =
        elem (if c = 0 then fst (chunks ! j) else snd (chunks ! j)) [b, s, h, d]"
    by blast
  have "elem prefix [b, offset_before chunks j + s, c, h, d] =
        elem (if c = 0 then fst (chunks ! j) else snd (chunks ! j)) [b, s, h, d]"
    if "j < n" "b < bc" "s < chunk_len (chunks ! j)" "h < H" "d < D" "c < 2" for j b s c h d
    using p(4)[of j b s h d c] that assms(5) by simp
  then show ?thesis using p(1,2,3) assms(5) by (intro exI[of _ prefix]) simp
qed

theorem incremental_writes_prefix_witness:
  "\<exists>prefix.
     incremental_writes
       [(\<lparr>shape = [1, 2, 1, 2], dtype = Float32, elem = (\<lambda>idx. 10 + int (sum_list idx))\<rparr>,
         \<lparr>shape = [1, 2, 1, 2], dtype = Float32, elem = (\<lambda>idx. 20 + int (sum_list idx))\<rparr>),
        (\<lparr>shape = [1, 1, 1, 2], dtype = Float32, elem = (\<lambda>idx. 30 + int (sum_list idx))\<rparr>,
         \<lparr>shape = [1, 1, 1, 2], dtype = Float32, elem = (\<lambda>idx. 40 + int (sum_list idx))\<rparr>)]
       \<lparr>batch_size_offset = 0, seqlen_offset = 0,
        lengths_per_sample = \<lparr>shape = [1], dtype = Int64, elem = (\<lambda>idx. 0)\<rparr>,
        key_value_memory_dict =
          [0 \<mapsto> (\<lparr>shape = [1, 3, 2, 1, 2], dtype = BFloat16, elem = (\<lambda>idx. 0)\<rparr>, ())]\<rparr>
       0 ! 1 = Inr prefix \<and>
     shape prefix = [1, 3, 2, 1, 2] \<and>
     elem prefix [0, 1, 0, 0, 1] = 12 \<and> elem prefix [0, 0, 1, 0, 0] = 20"
proof -
  let ?k0 = "\<lparr>shape = [1, 2, 1, 2], dtype = Float32, elem = (\<lambda>idx. 10 + int (sum_list idx))\<rparr>"
  let ?v0 = "\<lparr>shape = [1, 2, 1, 2], dtype = Float32, elem = (\<lambda>idx. 20 + int (sum_list idx))\<rparr>"
  let ?k1 = "\<lparr>shape = [1, 1, 1, 2], dtype = Float32, elem = (\<lambda>idx. 30 + int (sum_list idx))\<rparr>"
  let ?v1 = "\<lparr>shape = [1, 1, 1, 2], dtype = Float32, elem = (\<lambda>idx. 40 + int (sum_list idx))\<rparr>"
  let ?cache = "\<lparr>shape = [1, 3, 2, 1, 2], dtype = BFloat16, elem = (\<lambda>idx. 0::int)\<rparr>"
  let ?ip = "\<lparr>batch_size_offset = 0, seqlen_offset = 0,
        lengths_per_sample = \<lparr>shape = [1], dtype = Int64, elem = (\<lambda>idx. 0)\<rparr>,
        key_value_memory_dict = [0 \<mapsto> (?cache, ())]\<rparr>"
  let ?chunks = "[(?k0, ?v0), (?k1, ?v1)]"
  have ob: "offset_before ?chunks 0 = 0" "offset_before ?chunks (Suc 1) = 3"
    "offset_before ?chunks (length ?chunks) = 3" "chunk_len (?chunks ! 0) = 2"
    by (simp_all add: offset_before_def chunk_len_def)
  have sh: "\<forall>kv\<in>set ?chunks. \<exists>sc. shape (fst kv) = [1, sc, 1, 2] \<and> shape (snd kv) = [1, sc, 1, 2]"
    by simp
  from incremental_writes_prefix[of ?ip 0 ?cache "()" 1 3 1 2 1 ?chunks 1, OF _ _ _ _ _ _ sh]
  obtain prefix where p: "incremental_writes ?chunks ?ip 0 ! 1 = Inr prefix"
     "shape prefix = [1, 3, 2, 1, 2]"
     "\<And>j b s c h d. j < 1 \<Longrightarrow> b < 1 \<Longrightarrow> s < chunk_len (?chunks ! j) \<Longrightarrow> h < 1 \<Longrightarrow> d < 2 \<Longrightarrow> c < 2 \<Longrightarrow>
        elem prefix [b, offset_before ?chunks j + s, c, h, d] =
        elem (if c = 0 then fst (?chunks ! j) else snd (?chunks ! j)) [b, s, h, d]"
    unfolding ob by (auto simp: ob)
  have "elem prefix [0, 1, 0, 0, 1] = 12"
    using p(3)[of 0 0 1 0 1 0] by (simp add: offset_before_def chunk_len_def)
  moreover have "elem prefix [0, 0, 1, 0, 0] = 20"
    using p(3)[of 0 0 0 0 0 1] by (simp add: offset_before_def chunk_len_def)
  ultimately show ?thesis using p(1,2) by blast
qed


section \<open>Row-major indexing\<close>

lemma ravel_less: "in_range shp idx \<Longrightarrow> ravel shp idx < prod_list shp"
proof (induction shp idx rule: in_range.induct)
  case (2 n ns i js)
  then have r: "ravel ns js < prod_list ns" and i: "i < n" by simp_all
  have "i * prod_list ns + ravel ns js < (i + 1) * prod_list ns" using r by simp
  also have "\<dots> \<le> n * prod_list ns" using i by (intro mult_le_mono1) simp
  finally show ?case by simp
qed simp_all

lemma unravel_ravel: "in_range shp idx \<Longrightarrow> unravel shp (ravel shp idx) = idx"
proof (induction shp idx rule: in_range.induct)
  case (2 n ns i js)
  then have r: "ravel ns js < prod_list ns" by (simp add: ravel_less)
  then show ?case using 2 by simp
qed simp_all

lemma unravel_eq: "in_range shp idx \<Longrightarrow> ravel shp idx = k \<Longrightarrow> unravel shp k = idx"
  using unravel_ravel by blast

lemma ebind_Inr: "ebind (Inr a) f = f a"
  by (simp add: ebind_def)

lemma ebind_Inl: "ebind (Inl e) f = Inl e"
  by (simp add: ebind_def)

lemma reshape_elem:
  "reshape dims a = Inr r \<Longrightarrow> elem r idx = elem a (unravel (shape a) (ravel (shape r) idx))"
  by (auto simp: reshape_def ebind_def split: sum.splits)

lemma reshape_dtype: "reshape dims a = Inr r \<Longrightarrow> dtype r = dtype a"
  by (auto simp: reshape_def ebind_def split: sum.splits)

lemma reshape_shape:
  "infer_shape (prod_list (shape a)) dims = Inr shp \<Longrightarrow> \<exists>r. reshape dims a = Inr r \<and> shape r = shp"
  by (simp add: reshape_def ebind_def)

lemma infer_pairs:
  assumes "0 < B" "0 < S" "0 < H"
  shows "infer_shape (prod_list [B, S, H, 2 * F]) (map int [B, S, H] @ [-1, 2]) = Inr [B, S, H, F, 2]"
proof -
  have k: "B * S * H * 2 \<noteq> 0" using assms by simp
  have "B * S * H * (2 * F) = F * (B * S * H * 2)" by simp
  then have d: "B * S * H * (2 * F) div (B * S * H * 2) = F" "B * S * H * (2 * F) mod (B * S * H * 2) = 0"
    using k by (simp_all del: mult_eq_0_iff)
  show ?thesis
    unfolding infer_shape_def using k d
    by (simp add: Let_def mult.assoc)
qed

lemma infer_table:
  assumes "0 < S" "0 < F"
  shows "infer_shape (prod_list [Bf, S, F, 2]) [-1, int S, 1, int F, 2] = Inr [Bf, S, 1, F, 2]"
proof -
  have k: "S * (F * 2) \<noteq> 0" using assms by simp
  have "Bf * S * F * 2 = Bf * (S * (F * 2))" by simp
  then have d: "Bf * S * F * 2 div (S * (F * 2)) = Bf" "Bf * S * F * 2 mod (S * (F * 2)) = 0"
    using k by (simp_all del: mult_eq_0_iff)
  show ?thesis
    unfolding infer_shape_def using k d
    by (simp add: Let_def mult.assoc)
qed

lemma infer_flat:
  "infer_shape (prod_list [B, S, H, F, 2]) (map int [B, S, H] @ [int (prod_list [F, 2])]) = Inr [B, S, H, F * 2]"
proof -
  have "nat (int F * 2) = F * 2" by (simp add: nat_mult_distrib)
  then show ?thesis unfolding infer_shape_def by (simp add: Let_def)
qed

section \<open>Properties of the rotary embedding\<close>

lemma split_pairs_elem:
  assumes "b < B" "s < S" "h < H" "i < F" "j < 2"
  shows "unravel [B, S, H, 2 * F] (ravel [B, S, H, F, 2] [b, s, h, i, j]) = [b, s, h, 2 * i + j]"
proof (rule unravel_eq)
  show "in_range [B, S, H, 2 * F] [b, s, h, 2 * i + j]" using assms by simp
  show "ravel [B, S, H, 2 * F] [b, s, h, 2 * i + j] = ravel [B, S, H, F, 2] [b, s, h, i, j]"
    by (simp add: algebra_simps)
qed

lemma table_elem:
  assumes "b < Bf" "s < S" "i < F" "j < 2"
  shows "unravel [Bf, S, F, 2] (ravel [Bf, S, 1, F, 2] [b, s, 0, i, j]) = [b, s, i, j]"
proof (rule unravel_eq)
  show "in_range [Bf, S, F, 2] [b, s, i, j]" using assms by simp
  show "ravel [Bf, S, F, 2] [b, s, i, j] = ravel [Bf, S, 1, F, 2] [b, s, 0, i, j]"
    by (simp add: algebra_simps)
qed

lemma join_pairs_elem:
  assumes "b < B" "s < S" "h < H" "i < F" "j < 2"
  shows "unravel [B, S, H, F, 2] (ravel [B, S, H, F * 2] [b, s, h, 2 * i + j]) = [b, s, h, i, j]"
proof (rule unravel_eq)
  show "in_range [B, S, H, F, 2] [b, s, h, i, j]" using assms by simp
  show "ravel [B, S, H, F, 2] [b, s, h, i, j] = ravel [B, S, H, F * 2] [b, s, h, 2 * i + j]"
    by (simp add: algebra_simps)
qed

lemma broadcast_heads:
  assumes "Bf = B \<or> Bf = 1 \<or> B = 1"
  shows "broadcast_shapes [B, S, H, F] [Bf, S, 1, F] = Some [if B = 1 then Bf else B, S, H, F]"
  using assms by (auto simp: broadcast_shapes_def)

lemma bcast_x:
  assumes "b < (if B = 1 then Bf else B)" "s < S" "h < H" "i < F"
  shows "bcast [B, S, H, F] [b, s, h, i] = [if B = 1 then 0 else b, s, h, i]"
  using assms by (auto simp: bcast_def)

lemma bcast_table:
  assumes "b < Bo" "s < S" "h < H" "i < F"
  shows "bcast [Bf, S, 1, F] [b, s, h, i] = [if Bf = 1 then 0 else b, s, 0, i]"
  using assms by (auto simp: bcast_def)

lemma apply_rotary_emb_ok:
  assumes x: "shape x = [B, S, H, 2 * F]" and fc: "shape freqs = [Bf, S, F, 2]"
    and pos: "0 < B" "0 < S" "0 < H" "0 < F"
    and bc: "Bf = B \<or> Bf = 1 \<or> B = 1"
  shows "\<exists>out. apply_rotary_emb x freqs = Inr out \<and>
     shape out = [if B = 1 then Bf else B, S, H, 2 * F] \<and> dtype out = dtype x \<and>
     (\<forall>b s h i. b < (if B = 1 then Bf else B) \<longrightarrow> s < S \<longrightarrow> h < H \<longrightarrow> i < F \<longrightarrow>
        elem out [b, s, h, 2 * i] =
          elem x [if B = 1 then 0 else b, s, h, 2 * i] * elem freqs [if Bf = 1 then 0 else b, s, i, 0]
          - elem x [if B = 1 then 0 else b, s, h, 2 * i + 1] * elem freqs [if Bf = 1 then 0 else b, s, i, 1] \<and>
        elem out [b, s, h, 2 * i + 1] =
          elem x [if B = 1 then 0 else b, s, h, 2 * i + 1] * elem freqs [if Bf = 1 then 0 else b, s, i, 0]
          + elem x [if B = 1 then 0 else b, s, h, 2 * i] * elem freqs [if Bf = 1 then 0 else b, s, i, 1])"
proof -
  let ?Bo = "if B = 1 then Bf else B"
  define xs where "xs = \<lparr>shape = [B, S, H, F, 2], dtype = Float32,
     elem = (\<lambda>idx. elem x (unravel [B, S, H, 2 * F] (ravel [B, S, H, F, 2] idx))) \<rparr>"
  have 1: "reshape (map int (butlast (shape x)) @ [-1, 2]) (astype Float32 x) = Inr xs"
    using infer_pairs[OF pos(1,2,3), of F] x
    by (simp add: reshape_def ebind_def astype_def xs_def)
  define f5 where "f5 = \<lparr>shape = [Bf, S, 1, F, 2], dtype = dtype freqs,
     elem = (\<lambda>idx. elem freqs (unravel [Bf, S, F, 2] (ravel [Bf, S, 1, F, 2] idx))) \<rparr>"
  have 2: "reshape [-1, int (shape xs ! 1), 1, int (shape xs ! 3), 2] freqs = Inr f5"
    using infer_table[OF pos(2,4), of Bf] fc
    by (simp add: reshape_def ebind_def xs_def f5_def)
  define x0 where "x0 = \<lparr>shape = [B, S, H, F], dtype = Float32, elem = (\<lambda>idx. elem xs (idx @ [0]))\<rparr>"
  define x1 where "x1 = \<lparr>shape = [B, S, H, F], dtype = Float32, elem = (\<lambda>idx. elem xs (idx @ [1]))\<rparr>"
  define f0 where "f0 = \<lparr>shape = [Bf, S, 1, F], dtype = dtype freqs, elem = (\<lambda>idx. elem f5 (idx @ [0]))\<rparr>"
  define f1 where "f1 = \<lparr>shape = [Bf, S, 1, F], dtype = dtype freqs, elem = (\<lambda>idx. elem f5 (idx @ [1]))\<rparr>"
  have 3: "select_last 0 xs = Inr x0" "select_last 1 xs = Inr x1"
    "select_last 0 f5 = Inr f0" "select_last 1 f5 = Inr f1"
    by (simp_all add: select_last_def xs_def f5_def x0_def x1_def f0_def f1_def)
  define dt where "dt = promote Float32 (dtype freqs)"
  define re where "re = \<lparr>shape = [?Bo, S, H, F], dtype = promote dt dt,
     elem = (\<lambda>idx. elem x0 (bcast [B, S, H, F] idx) * elem f0 (bcast [Bf, S, 1, F] idx)
                  - elem x1 (bcast [B, S, H, F] idx) * elem f1 (bcast [Bf, S, 1, F] idx))\<rparr>"
  define im where "im = \<lparr>shape = [?Bo, S, H, F], dtype = promote dt dt,
     elem = (\<lambda>idx. elem x1 (bcast [B, S, H, F] idx) * elem f0 (bcast [Bf, S, 1, F] idx)
                  + elem x0 (bcast [B, S, H, F] idx) * elem f1 (bcast [Bf, S, 1, F] idx))\<rparr>"
  have bs: "broadcast_shapes [?Bo, S, H, F] [?Bo, S, H, F] = Some [?Bo, S, H, F]"
    by (simp add: broadcast_shapes_def)
  have bi: "bcast [?Bo, S, H, F] [b, s, h, i] = [b, s, h, i]"
    if "b < ?Bo" "s < S" "h < H" "i < F" for b s h i
    using that by (auto simp: bcast_def)
  define re' where "re' = \<lparr>shape = [?Bo, S, H, F], dtype = promote dt dt,
     elem = (\<lambda>idx. elem x0 (bcast [B, S, H, F] (bcast [?Bo, S, H, F] idx)) * elem f0 (bcast [Bf, S, 1, F] (bcast [?Bo, S, H, F] idx))
                  - elem x1 (bcast [B, S, H, F] (bcast [?Bo, S, H, F] idx)) * elem f1 (bcast [Bf, S, 1, F] (bcast [?Bo, S, H, F] idx)))\<rparr>"
  define im' where "im' = \<lparr>shape = [?Bo, S, H, F], dtype = promote dt dt,
     elem = (\<lambda>idx. elem x1 (bcast [B, S, H, F] (bcast [?Bo, S, H, F] idx)) * elem f0 (bcast [Bf, S, 1, F] (bcast [?Bo, S, H, F] idx))
                  + elem x0 (bcast [B, S, H, F] (bcast [?Bo, S, H, F] idx)) * elem f1 (bcast [Bf, S, 1, F] (bcast [?Bo, S, H, F] idx)))\<rparr>"
  have 4: "ebind (mul x0 f0) (\<lambda>p. ebind (mul x1 f1) (\<lambda>q. sub p q)) = Inr re'"
    using broadcast_heads[OF bc, of S H F] bs
    by (simp add: mul_def sub_def binop_def ebind_def x0_def x1_def f0_def f1_def re'_def dt_def)
  have 5: "ebind (mul x1 f0) (\<lambda>p. ebind (mul x0 f1) (\<lambda>q. add p q)) = Inr im'"
    using broadcast_heads[OF bc, of S H F] bs
    by (simp add: mul_def add_def binop_def ebind_def x0_def x1_def f0_def f1_def im'_def dt_def)
  define st where "st = \<lparr>shape = [?Bo, S, H, F, 2], dtype = promote (promote dt dt) (promote dt dt),
     elem = (\<lambda>idx. if last idx = 0 then elem re' (butlast idx) else elem im' (butlast idx))\<rparr>"
  have shr: "shape re' = [?Bo, S, H, F]" "shape im' = [?Bo, S, H, F]"
    "dtype re' = promote dt dt" "dtype im' = promote dt dt"
    by (simp_all add: re'_def im'_def)
  have 6: "stack_last re' im' = Inr st"
    by (simp add: stack_last_def shr st_def)
  define fl where "fl = \<lparr>shape = [?Bo, S, H, F * 2], dtype = dtype st,
     elem = (\<lambda>idx. elem st (unravel [?Bo, S, H, F, 2] (ravel [?Bo, S, H, F * 2] idx)))\<rparr>"
  have shs: "shape st = [?Bo, S, H, F, 2]" by (simp add: st_def)
  have 7: "flatten 3 st = Inr fl"
    using infer_flat[of ?Bo S H F]
    by (simp add: flatten_def reshape_def ebind_def shs fl_def)
  have lx: "(length (shape xs) < 4) = False" by (simp add: xs_def)
  have run: "apply_rotary_emb x freqs = Inr (astype (dtype x) fl)"
    unfolding apply_rotary_emb_def
    by (simp only: 1 2 3 4 5 6 7 lx ebind_Inr if_False)
  have ex: "elem xs [b, s, h, i, j] = elem x [b, s, h, 2 * i + j]"
    if "b < B" "s < S" "h < H" "i < F" "j < 2" for b s h i j
    using split_pairs_elem[OF that] by (simp add: xs_def)
  have ef: "elem f5 [b, s, 0, i, j] = elem freqs [b, s, i, j]"
    if "b < Bf" "s < S" "i < F" "j < 2" for b s i j
    using table_elem[OF that] by (simp add: f5_def)
  have el: "elem fl [b, s, h, 2 * i + j] = elem st [b, s, h, i, j]"
    if "b < ?Bo" "s < S" "h < H" "i < F" "j < 2" for b s h i j
    using join_pairs_elem[OF that] by (simp add: fl_def)
  have main: "elem fl [b, s, h, 2 * i] =
          elem x [if B = 1 then 0 else b, s, h, 2 * i] * elem freqs [if Bf = 1 then 0 else b, s, i, 0]
          - elem x [if B = 1 then 0 else b, s, h, 2 * i + 1] * elem freqs [if Bf = 1 then 0 else b, s, i, 1] \<and>
        elem fl [b, s, h, 2 * i + 1] =
          elem x [if B = 1 then 0 else b, s, h, 2 * i + 1] * elem freqs [if Bf = 1 then 0 else b, s, i, 0]
          + elem x [if B = 1 then 0 else b, s, h, 2 * i] * elem freqs [if Bf = 1 then 0 else b, s, i, 1]"
    if r: "b < ?Bo" "s < S" "h < H" "i < F" for b s h i
  proof -
    let ?bx = "if B = 1 then 0 else b" and ?bf = "if Bf = 1 then 0 else b"
    have bx: "?bx < B" using r(1) pos(1) bc by (auto split: if_splits)
    have bf: "?bf < Bf" using r(1) pos(1) bc by (auto split: if_splits)
    have a: "elem x0 (bcast [B, S, H, F] (bcast [?Bo, S, H, F] [b, s, h, i])) = elem x [?bx, s, h, 2 * i]"
      using bi[OF r] bcast_x[OF r] ex[OF bx r(2,3,4), of 0] by (simp add: x0_def)
    have b: "elem x1 (bcast [B, S, H, F] (bcast [?Bo, S, H, F] [b, s, h, i])) = elem x [?bx, s, h, 2 * i + 1]"
      using bi[OF r] bcast_x[OF r] ex[OF bx r(2,3,4), of 1] by (simp add: x1_def)
    have c: "elem f0 (bcast [Bf, S, 1, F] (bcast [?Bo, S, H, F] [b, s, h, i])) = elem freqs [?bf, s, i, 0]"
      using bi[OF r] bcast_table[OF r, of Bf] ef[OF bf r(2,4), of 0] by (simp add: f0_def)
    have d: "elem f1 (bcast [Bf, S, 1, F] (bcast [?Bo, S, H, F] [b, s, h, i])) = elem freqs [?bf, s, i, 1]"
      using bi[OF r] bcast_table[OF r, of Bf] ef[OF bf r(2,4), of 1] by (simp add: f1_def)
    have e0: "elem st [b, s, h, i, 0] = elem re' [b, s, h, i]" by (simp add: st_def)
    have e1: "elem st [b, s, h, i, 1] = elem im' [b, s, h, i]" by (simp add: st_def)
    have "elem fl [b, s, h, 2 * i] = elem re' [b, s, h, i]"
      using el[OF r, of 0] e0 by simp
    moreover have "elem fl [b, s, h, 2 * i + 1] = elem im' [b, s, h, i]"
      using el[OF r, of 1] e1 by simp
    moreover have "elem re' [b, s, h, i] = elem x [?bx, s, h, 2 * i] * elem freqs [?bf, s, i, 0]
          - elem x [?bx, s, h, 2 * i + 1] * elem freqs [?bf, s, i, 1]"
      unfolding re'_def using a b c d by simp
    moreover have "elem im' [b, s, h, i] = elem x [?bx, s, h, 2 * i + 1] * elem freqs [?bf, s, i, 0]
          + elem x [?bx, s, h, 2 * i] * elem freqs [?bf, s, i, 1]"
      unfolding im'_def using a b c d by simp
    ultimately show ?thesis by simp
  qed
  have sh: "shape (astype (dtype x) fl) = [?Bo, S, H, 2 * F]" "dtype (astype (dtype x) fl) = dtype x"
    by (simp_all add: astype_def fl_def mult.commute)
  have "elem (astype (dtype x) fl) = elem fl" by (simp add: astype_def)
  then show ?thesis using run sh main by (intro exI[of _ "astype (dtype x) fl"]) simp
qed


text \<open>
  Claim C6. The table builder is meant to return a table of shape (L, d/2, 2) holding
  \<open>(cos (p f\<^sub>i), sin (p f\<^sub>i))\<close>. It does not: for every sequence length, dimension and
  base, the call ends in \<open>AttributeError\<close>, raised where the function reads \<open>polar\<close>
  from the array library.
\<close>

theorem precompute_freqs_cis_raises:
  "precompute_freqs_cis seq_len n_elem base = Inl AttributeError"
  by (simp add: precompute_freqs_cis_def take_first_def arange_def map_array_def outer_def
      ebind_def Let_def)

lemma apply_rotary_emb_pairs:
  assumes "shape x = [B, S, H, 2 * F]" and "shape freqs = [Bf, S, F, 2]"
    and "0 < B" and "0 < S" and "0 < H" and "0 < F"
    and "Bf = B \<or> Bf = 1"
  shows "\<exists>out. apply_rotary_emb x freqs = Inr out \<and>
     shape out = shape x \<and> dtype out = dtype x \<and>
     (\<forall>b s h i. b < B \<longrightarrow> s < S \<longrightarrow> h < H \<longrightarrow> i < F \<longrightarrow>
        elem out [b, s, h, 2 * i] =
          elem x [b, s, h, 2 * i] * elem freqs [if Bf = 1 then 0 else b, s, i, 0]
          - elem x [b, s, h, 2 * i + 1] * elem freqs [if Bf = 1 then 0 else b, s, i, 1] \<and>
        elem out [b, s, h, 2 * i + 1] =
          elem x [b, s, h, 2 * i] * elem freqs [if Bf = 1 then 0 else b, s, i, 1]
          + elem x [b, s, h, 2 * i + 1] * elem freqs [if Bf = 1 then 0 else b, s, i, 0])"
proof -
  have bc: "Bf = B \<or> Bf = 1 \<or> B = 1" using assms(7) by auto
  have Bo: "(if B = 1 then Bf else B) = B" using assms(7) by auto
  have bx: "(if B = 1 then 0 else b) = b" if "b < B" for b using that by auto
  from apply_rotary_emb_ok[OF assms(1,2,3,4,5,6) bc]
  obtain out where o: "apply_rotary_emb x freqs = Inr out"
    "shape out = [if B = 1 then Bf else B, S, H, 2 * F]" "dtype out = dtype x"
    "\<And>b s h i. b < (if B = 1 then Bf else B) \<Longrightarrow> s < S \<Longrightarrow> h < H \<Longrightarrow> i < F \<Longrightarrow>
        elem out [b, s, h, 2 * i] =
          elem x [if B = 1 then 0 else b, s, h, 2 * i] * elem freqs [if Bf = 1 then 0 else b, s, i, 0]
          - elem x [if B = 1 then 0 else b, s, h, 2 * i + 1] * elem freqs [if Bf = 1 then 0 else b, s, i, 1] \<and>
        elem out [b, s, h, 2 * i + 1] =
          elem x [if B = 1 then 0 else b, s, h, 2 * i + 1] * elem freqs [if Bf = 1 then 0 else b, s, i, 0]
          + elem x [if B = 1 then 0 else b, s, h, 2 * i] * elem freqs [if Bf = 1 then 0 else b, s, i, 1]"
    by blast
  have e: "elem out [b, s, h, 2 * i] =
          elem x [b, s, h, 2 * i] * elem freqs [if Bf = 1 then 0 else b, s, i, 0]
          - elem x [b, s, h, 2 * i + 1] * elem freqs [if Bf = 1 then 0 else b, s, i, 1] \<and>
        elem out [b, s, h, 2 * i + 1] =
          elem x [b, s, h, 2 * i] * elem freqs [if Bf = 1 then 0 else b, s, i, 1]
          + elem x [b, s, h, 2 * i + 1] * elem freqs [if Bf = 1 then 0 else b, s, i, 0]"
    if "b < B" "s < S" "h < H" "i < F" for b s h i
  proof -
    have "b < (if B = 1 then Bf else B)" using that(1) Bo by simp
    from o(4)[OF this that(2,3,4)] bx[OF that(1)] show ?thesis by (simp add: add.commute)
  qed
  show ?thesis
    using o(1,3) o(2)[unfolded Bo] assms(1) e by (intro exI[of _ out]) simp
qed

text \<open>
  Claim C7, as amended. For a non-empty input of shape (batch, seq, heads, d) with \<open>d\<close>
  even and a table slice of shape (batch or 1, seq, d/2, 2), the applier takes the last
  axis as \<open>d/2\<close> consecutive pairs \<open>(a, b)\<close> and replaces each by
  \<open>(a c - b s, a s + b c)\<close>, where \<open>(c, s)\<close> is the table entry of the same position
  and pair index; the result has the input's shape and the input's dtype. The function
  reads axes 1 and 3 of the paired input and flattens from axis 3, so it is written for
  inputs of exactly four axes.
\<close>

theorem apply_rotary_emb_rotates_pairs:
  assumes "shape x = [B, S, H, 2 * F]" and "shape freqs = [Bf, S, F, 2]"
    and "0 < B" and "0 < S" and "0 < H" and "0 < F"
    and "Bf = B \<or> Bf = 1"
  shows "\<exists>out. apply_rotary_emb x freqs = Inr out \<and>
     shape out = shape x \<and> dtype out = dtype x \<and>
     (\<forall>b s h i. b < B \<longrightarrow> s < S \<longrightarrow> h < H \<longrightarrow> i < F \<longrightarrow>
        elem out [b, s, h, 2 * i] =
          elem x [b, s, h, 2 * i] * elem freqs [if Bf = 1 then 0 else b, s, i, 0]
          - elem x [b, s, h, 2 * i + 1] * elem freqs [if Bf = 1 then 0 else b, s, i, 1] \<and>
        elem out [b, s, h, 2 * i + 1] =
          elem x [b, s, h, 2 * i] * elem freqs [if Bf = 1 then 0 else b, s, i, 1]
          + elem x [b, s, h, 2 * i + 1] * elem freqs [if Bf = 1 then 0 else b, s, i, 0])"
  using apply_rotary_emb_pairs[OF assms] .

theorem apply_rotary_emb_rotates_pairs_witness:
  "\<exists>out. apply_rotary_emb
       \<lparr>shape = [1, 1, 1, 2], dtype = BFloat16, elem = (\<lambda>idx. 3 + real (idx ! 3))\<rparr>
       \<lparr>shape = [1, 1, 1, 2], dtype = Float32, elem = (\<lambda>idx. real (idx ! 3))\<rparr> = Inr out \<and>
     shape out = [1, 1, 1, 2] \<and> dtype out = BFloat16 \<and>
     elem out [0, 0, 0, 0] = - 4 \<and> elem out [0, 0, 0, 1] = 3"
proof -
  let ?x = "\<lparr>shape = [1, 1, 1, 2], dtype = BFloat16, elem = (\<lambda>idx. 3 + real (idx ! 3))\<rparr>"
  let ?f = "\<lparr>shape = [1, 1, 1, 2], dtype = Float32, elem = (\<lambda>idx. real (idx ! 3))\<rparr>"
  from apply_rotary_emb_rotates_pairs[of ?x 1 1 1 1 ?f 1]
  obtain out where o: "apply_rotary_emb ?x ?f = Inr out" "shape out = [1, 1, 1, 2]"
    "dtype out = BFloat16"
    "\<And>b s h i. b < 1 \<Longrightarrow> s < 1 \<Longrightarrow> h < 1 \<Longrightarrow> i < 1 \<Longrightarrow>
        elem out [b, s, h, 2 * i] =
          elem ?x [b, s, h, 2 * i] * elem ?f [0, s, i, 0]
          - elem ?x [b, s, h, 2 * i + 1] * elem ?f [0, s, i, 1] \<and>
        elem out [b, s, h, 2 * i + 1] =
          elem ?x [b, s, h, 2 * i] * elem ?f [0, s, i, 1]
          + elem ?x [b, s, h, 2 * i + 1] * elem ?f [0, s, i, 0]"
    by auto
  from o(4)[of 0 0 0 0] have "elem out [0, 0, 0, 0] = - 4" "elem out [0, 0, 0, 1] = 3"
    by simp_all
  then show ?thesis using o(1,2,3) by blast
qed

text \<open>
  As first stated, claim C7 spoke of every input whose last axis is even. An input of
  two axes with an even last axis is rejected: pairing gives three axes, and the
  function reads the fourth.
\<close>

theorem apply_rotary_emb_rank2_counterexample:
  "apply_rotary_emb
     \<lparr>shape = [1, 2], dtype = Float32, elem = (\<lambda>idx. 3 + real (idx ! 1))\<rparr>
     \<lparr>shape = [1, 1, 2], dtype = Float32, elem = (\<lambda>idx. real (idx ! 2))\<rparr> = Inl IndexError"
proof -
  have "infer_shape 2 [1, - 1, 2] = Inr [1, 1, 2]"
    by (simp add: infer_shape_def Let_def)
  then show ?thesis
    by (simp add: apply_rotary_emb_def reshape_def astype_def ebind_def)
qed

text \<open>
  Claim C8. Rotating by the angles \<open>\<theta>\<close> and then by \<open>-\<theta>\<close>, that is with the table
  entries \<open>(cos \<theta>, - sin \<theta>)\<close>, gives back the input, for every head dimension and
  every position. In the exact arithmetic of the model the two are equal.
\<close>

theorem apply_rotary_emb_round_trip:
  assumes "shape x = [B, S, H, 2 * F]"
    and "shape freqs = [Bf, S, F, 2]" and "shape freqs_inv = [Bf, S, F, 2]"
    and "0 < B" and "0 < S" and "0 < H" and "0 < F"
    and "Bf = B \<or> Bf = 1"
    and "\<forall>b s i. b < Bf \<longrightarrow> s < S \<longrightarrow> i < F \<longrightarrow>
           elem freqs [b, s, i, 0] = cos (\<theta> b s i) \<and>
           elem freqs [b, s, i, 1] = sin (\<theta> b s i) \<and>
           elem freqs_inv [b, s, i, 0] = cos (\<theta> b s i) \<and>
           elem freqs_inv [b, s, i, 1] = - sin (\<theta> b s i)"
  shows "\<exists>y z. apply_rotary_emb x freqs = Inr y \<and> apply_rotary_emb y freqs_inv = Inr z \<and>
     shape z = shape x \<and> dtype z = dtype x \<and>
     (\<forall>b s h d. b < B \<longrightarrow> s < S \<longrightarrow> h < H \<longrightarrow> d < 2 * F \<longrightarrow>
        elem z [b, s, h, d] = elem x [b, s, h, d])"
proof -
  from apply_rotary_emb_pairs[OF assms(1,2,4,5,6,7,8)]
  obtain y where y: "apply_rotary_emb x freqs = Inr y"
    "shape y = shape x" "dtype y = dtype x"
    "\<And>b s h i. b < B \<Longrightarrow> s < S \<Longrightarrow> h < H \<Longrightarrow> i < F \<Longrightarrow>
        elem y [b, s, h, 2 * i] =
          elem x [b, s, h, 2 * i] * elem freqs [if Bf = 1 then 0 else b, s, i, 0]
          - elem x [b, s, h, 2 * i + 1] * elem freqs [if Bf = 1 then 0 else b, s, i, 1] \<and>
        elem y [b, s, h, 2 * i + 1] =
          elem x [b, s, h, 2 * i] * elem freqs [if Bf = 1 then 0 else b, s, i, 1]
          + elem x [b, s, h, 2 * i + 1] * elem freqs [if Bf = 1 then 0 else b, s, i, 0]"
    by blast
  have sy: "shape y = [B, S, H, 2 * F]" using y(2) assms(1) by simp
  from apply_rotary_emb_pairs[OF sy assms(3,4,5,6,7,8)]
  obtain z where z: "apply_rotary_emb y freqs_inv = Inr z"
    "shape z = shape y" "dtype z = dtype y"
    "\<And>b s h i. b < B \<Longrightarrow> s < S \<Longrightarrow> h < H \<Longrightarrow> i < F \<Longrightarrow>
        elem z [b, s, h, 2 * i] =
          elem y [b, s, h, 2 * i] * elem freqs_inv [if Bf = 1 then 0 else b, s, i, 0]
          - elem y [b, s, h, 2 * i + 1] * elem freqs_inv [if Bf = 1 then 0 else b, s, i, 1] \<and>
        elem z [b, s, h, 2 * i + 1] =
          elem y [b, s, h, 2 * i] * elem freqs_inv [if Bf = 1 then 0 else b, s, i, 1]
          + elem y [b, s, h, 2 * i + 1] * elem freqs_inv [if Bf = 1 then 0 else b, s, i, 0]"
    by blast
  have pair: "elem z [b, s, h, 2 * i] = elem x [b, s, h, 2 * i] \<and>
              elem z [b, s, h, 2 * i + 1] = elem x [b, s, h, 2 * i + 1]"
    if r: "b < B" "s < S" "h < H" "i < F" for b s h i
  proof -
    let ?bf = "if Bf = 1 then 0 else b"
    have bf: "?bf < Bf" using r(1) assms(4,8) by auto
    define c where "c = cos (\<theta> ?bf s i)"
    define sn where "sn = sin (\<theta> ?bf s i)"
    have t: "elem freqs [?bf, s, i, 0] = c" "elem freqs [?bf, s, i, 1] = sn"
      "elem freqs_inv [?bf, s, i, 0] = c" "elem freqs_inv [?bf, s, i, 1] = - sn"
      using assms(9) bf r(2,4) by (simp_all add: c_def sn_def)
    have u: "c * c + sn * sn = 1"
      unfolding c_def sn_def using sin_cos_squared_add2[of "\<theta> ?bf s i"]
      by (simp add: power2_eq_square)
    define a where "a = elem x [b, s, h, 2 * i]"
    define a' where "a' = elem x [b, s, h, 2 * i + 1]"
    have ey: "elem y [b, s, h, 2 * i] = a * c - a' * sn" "elem y [b, s, h, 2 * i + 1] = a * sn + a' * c"
      using y(4)[OF r] t by (simp_all add: a_def a'_def)
    have ez: "elem z [b, s, h, 2 * i] = (a * c - a' * sn) * c - (a * sn + a' * c) * (- sn)"
      "elem z [b, s, h, 2 * i + 1] = (a * c - a' * sn) * (- sn) + (a * sn + a' * c) * c"
      using z(4)[OF r] t ey by simp_all
    have "(a * c - a' * sn) * c - (a * sn + a' * c) * (- sn) = a * (c * c + sn * sn)"
      by (simp add: algebra_simps)
    moreover have "(a * c - a' * sn) * (- sn) + (a * sn + a' * c) * c = a' * (c * c + sn * sn)"
      by (simp add: algebra_simps)
    ultimately show ?thesis using ez u by (simp add: a_def a'_def)
  qed
  have el: "elem z [b, s, h, d] = elem x [b, s, h, d]"
    if r: "b < B" "s < S" "h < H" "d < 2 * F" for b s h d
  proof -
    have i: "d div 2 < F" using r(4) by auto
    have "d = 2 * (d div 2) \<or> d = 2 * (d div 2) + 1" by presburger
    then show ?thesis using pair[OF r(1,2,3) i] by metis
  qed
  show ?thesis
    using y(1) z(1) z(2,3) y(2,3) el by (intro exI[of _ y] exI[of _ z]) simp
qed

theorem apply_rotary_emb_round_trip_witness:
  "\<exists>y z. apply_rotary_emb
       \<lparr>shape = [1, 1, 1, 2], dtype = BFloat16, elem = (\<lambda>idx. 3 + real (idx ! 3))\<rparr>
       \<lparr>shape = [1, 1, 1, 2], dtype = Float32, elem = (\<lambda>idx. real (idx ! 3))\<rparr> = Inr y \<and>
     apply_rotary_emb y
       \<lparr>shape = [1, 1, 1, 2], dtype = Float32, elem = (\<lambda>idx. - real (idx ! 3))\<rparr> = Inr z \<and>
     shape z = [1, 1, 1, 2] \<and> elem z [0, 0, 0, 0] = 3 \<and> elem z [0, 0, 0, 1] = 4"
proof -
  let ?x = "\<lparr>shape = [1, 1, 1, 2], dtype = BFloat16, elem = (\<lambda>idx. 3 + real (idx ! 3))\<rparr>"
  let ?f = "\<lparr>shape = [1, 1, 1, 2], dtype = Float32, elem = (\<lambda>idx. real (idx ! 3))\<rparr>"
  let ?g = "\<lparr>shape = [1, 1, 1, 2], dtype = Float32, elem = (\<lambda>idx. - real (idx ! 3))\<rparr>"
  from apply_rotary_emb_round_trip[of ?x 1 1 1 1 ?f 1 ?g "\<lambda>b s i. pi / 2"]
  obtain y z where r: "apply_rotary_emb ?x ?f = Inr y" "apply_rotary_emb y ?g = Inr z"
    "shape z = [1, 1, 1, 2]"
    "\<And>b s h d. b < 1 \<Longrightarrow> s < 1 \<Longrightarrow> h < 1 \<Longrightarrow> d < 2 \<Longrightarrow> elem z [b, s, h, d] = elem ?x [b, s, h, d]"
    by auto
  from r(4)[of 0 0 0 0] r(4)[of 0 0 0 1]
  have "elem z [0, 0, 0, 0] = 3" "elem z [0, 0, 0, 1] = 4" by simp_all
  then show ?thesis using r(1,2,3) by blast
qed

text \<open>
  Claim C10. The table slice is broadcast along the head axis: at a batch element, a
  position and a pair index, every head is rotated with the same \<open>(cos, sin)\<close> entry.
  Hence the applier commutes with every permutation of the heads.
\<close>

theorem apply_rotary_emb_heads:
  assumes "shape x = [B, S, H, 2 * F]" and "shape freqs = [Bf, S, F, 2]"
    and "0 < B" and "0 < S" and "0 < H" and "0 < F"
    and "Bf = B \<or> Bf = 1"
    and "bij_betw perm {..<H} {..<H}"
  shows "\<exists>y yp. apply_rotary_emb x freqs = Inr y \<and>
     apply_rotary_emb (permute_heads perm x) freqs = Inr yp \<and>
     shape yp = shape y \<and> dtype yp = dtype y \<and>
     (\<forall>b s h d. b < B \<longrightarrow> s < S \<longrightarrow> h < H \<longrightarrow> d < 2 * F \<longrightarrow>
        elem yp [b, s, h, d] = elem (permute_heads perm y) [b, s, h, d]) \<and>
     (\<forall>b s h i. b < B \<longrightarrow> s < S \<longrightarrow> h < H \<longrightarrow> i < F \<longrightarrow>
        elem y [b, s, h, 2 * i] =
          elem x [b, s, h, 2 * i] * elem freqs [if Bf = 1 then 0 else b, s, i, 0]
          - elem x [b, s, h, 2 * i + 1] * elem freqs [if Bf = 1 then 0 else b, s, i, 1] \<and>
        elem y [b, s, h, 2 * i + 1] =
          elem x [b, s, h, 2 * i] * elem freqs [if Bf = 1 then 0 else b, s, i, 1]
          + elem x [b, s, h, 2 * i + 1] * elem freqs [if Bf = 1 then 0 else b, s, i, 0])"
proof -
  have ph: "perm h < H" if "h < H" for h
    using assms(8) that by (auto simp: bij_betw_def)
  from apply_rotary_emb_pairs[OF assms(1,2,3,4,5,6,7)]
  obtain y where y: "apply_rotary_emb x freqs = Inr y"
    "shape y = shape x" "dtype y = dtype x"
    "\<And>b s h i. b < B \<Longrightarrow> s < S \<Longrightarrow> h < H \<Longrightarrow> i < F \<Longrightarrow>
        elem y [b, s, h, 2 * i] =
          elem x [b, s, h, 2 * i] * elem freqs [if Bf = 1 then 0 else b, s, i, 0]
          - elem x [b, s, h, 2 * i + 1] * elem freqs [if Bf = 1 then 0 else b, s, i, 1] \<and>
        elem y [b, s, h, 2 * i + 1] =
          elem x [b, s, h, 2 * i] * elem freqs [if Bf = 1 then 0 else b, s, i, 1]
          + elem x [b, s, h, 2 * i + 1] * elem freqs [if Bf = 1 then 0 else b, s, i, 0]"
    by blast
  let ?xp = "permute_heads perm x"
  have sp: "shape ?xp = [B, S, H, 2 * F]" "dtype ?xp = dtype x"
    using assms(1) by (simp_all add: permute_heads_def)
  have ep: "elem ?xp [b, s, h, d] = elem x [b, s, perm h, d]" for b s h d
    by (simp add: permute_heads_def)
  have eyp: "elem (permute_heads perm y) [b, s, h, d] = elem y [b, s, perm h, d]" for b s h d
    by (simp add: permute_heads_def)
  from apply_rotary_emb_pairs[OF sp(1) assms(2,3,4,5,6,7)]
  obtain yp where yp: "apply_rotary_emb ?xp freqs = Inr yp"
    "shape yp = shape ?xp" "dtype yp = dtype ?xp"
    "\<And>b s h i. b < B \<Longrightarrow> s < S \<Longrightarrow> h < H \<Longrightarrow> i < F \<Longrightarrow>
        elem yp [b, s, h, 2 * i] =
          elem ?xp [b, s, h, 2 * i] * elem freqs [if Bf = 1 then 0 else b, s, i, 0]
          - elem ?xp [b, s, h, 2 * i + 1] * elem freqs [if Bf = 1 then 0 else b, s, i, 1] \<and>
        elem yp [b, s, h, 2 * i + 1] =
          elem ?xp [b, s, h, 2 * i] * elem freqs [if Bf = 1 then 0 else b, s, i, 1]
          + elem ?xp [b, s, h, 2 * i + 1] * elem freqs [if Bf = 1 then 0 else b, s, i, 0]"
    by blast
  have pair: "elem yp [b, s, h, 2 * i] = elem y [b, s, perm h, 2 * i] \<and>
              elem yp [b, s, h, 2 * i + 1] = elem y [b, s, perm h, 2 * i + 1]"
    if r: "b < B" "s < S" "h < H" "i < F" for b s h i
    using yp(4)[OF r] y(4)[OF r(1,2) ph[OF r(3)] r(4)] by (simp add: ep)
  have el: "elem yp [b, s, h, d] = elem (permute_heads perm y) [b, s, h, d]"
    if r: "b < B" "s < S" "h < H" "d < 2 * F" for b s h d
  proof -
    have i: "d div 2 < F" using r(4) by auto
    have "d = 2 * (d div 2) \<or> d = 2 * (d div 2) + 1" by presburger
    then show ?thesis using pair[OF r(1,2,3) i] eyp by metis
  qed
  have "shape yp = shape y" "dtype yp = dtype y"
    using yp(2,3) sp y(2,3) assms(1) by simp_all
  then show ?thesis
    using y(1) yp(1) el y(4) by (intro exI[of _ y] exI[of _ yp]) simp
qed

theorem apply_rotary_emb_heads_witness:
  "\<exists>y yp. apply_rotary_emb
       \<lparr>shape = [1, 1, 2, 2], dtype = BFloat16, elem = (\<lambda>idx. 1 + real (10 * (idx ! 2) + idx ! 3))\<rparr>
       \<lparr>shape = [1, 1, 1, 2], dtype = Float32, elem = (\<lambda>idx. real (idx ! 3))\<rparr> = Inr y \<and>
     apply_rotary_emb
       (permute_heads (\<lambda>h. 1 - h)
          \<lparr>shape = [1, 1, 2, 2], dtype = BFloat16, elem = (\<lambda>idx. 1 + real (10 * (idx ! 2) + idx ! 3))\<rparr>)
       \<lparr>shape = [1, 1, 1, 2], dtype = Float32, elem = (\<lambda>idx. real (idx ! 3))\<rparr> = Inr yp \<and>
     elem y [0, 0, 1, 0] = - 12 \<and> elem y [0, 0, 0, 0] = - 2 \<and> elem yp [0, 0, 0, 0] = - 12"
proof -
  let ?x = "\<lparr>shape = [1, 1, 2, 2], dtype = BFloat16, elem = (\<lambda>idx. 1 + real (10 * (idx ! 2) + idx ! 3))\<rparr>"
  let ?f = "\<lparr>shape = [1, 1, 1, 2], dtype = Float32, elem = (\<lambda>idx. real (idx ! 3))\<rparr>"
  have b: "bij_betw (\<lambda>h. 1 - h) {..<2::nat} {..<2}"
    by (rule bij_betw_byWitness[where f' = "\<lambda>h. 1 - h"]) auto
  from apply_rotary_emb_heads[of ?x 1 1 2 1 ?f 1 "\<lambda>h. 1 - h", OF _ _ _ _ _ _ _ b]
  obtain y yp where r: "apply_rotary_emb ?x ?f = Inr y"
    "apply_rotary_emb (permute_heads (\<lambda>h. 1 - h) ?x) ?f = Inr yp"
    "\<And>b s h d. b < 1 \<Longrightarrow> s < 1 \<Longrightarrow> h < 2 \<Longrightarrow> d < 2 \<Longrightarrow>
        elem yp [b, s, h, d] = elem (permute_heads (\<lambda>h. 1 - h) y) [b, s, h, d]"
    "\<And>b s h i. b < 1 \<Longrightarrow> s < 1 \<Longrightarrow> h < 2 \<Longrightarrow> i < 1 \<Longrightarrow>
        elem y [b, s, h, 2 * i] =
          elem ?x [b, s, h, 2 * i] * elem ?f [0, s, i, 0]
          - elem ?x [b, s, h, 2 * i + 1] * elem ?f [0, s, i, 1]"
    by auto
  have 1: "elem y [0, 0, 1, 0] = - 12" using r(4)[of 0 0 1 0] by simp
  have 2: "elem y [0, 0, 0, 0] = - 2" using r(4)[of 0 0 0 0] by simp
  have "elem yp [0, 0, 0, 0] = elem y [0, 0, 1, 0]"
    using r(3)[of 0 0 0 0] by (simp add: permute_heads_def)
  then show ?thesis using r(1,2) 1 2 by auto
qed


section \<open>The attention block and the backbone\<close>

lemma split_indices3:
  "split_indices [a, b, c] p = Inl ValueError \<or>
   (\<exists>p0 p1 p2 p3. split_indices [a, b, c] p = Inr [p0, p1, p2, p3])"
proof -
  have u: "[0..<4] = [0, 1, 2, 3]" by (simp add: upt_rec)
  show ?thesis by (simp add: split_indices_def Let_def u)
qed

lemma linear_error: "linear w x = Inl e \<Longrightarrow> e = ValueError"
  by (auto simp: linear_def split: list.splits if_splits)

lemma Attention_forward_ValueError:
  "Attention_forward self x ip freqs = (Inl ValueError, ip)"
proof (cases "\<exists>batch_size seqlen d. shape x = [batch_size, seqlen, d]")
  case False
  then show ?thesis
    by (auto simp: Attention_forward_def split: list.splits)
next
  case True
  then obtain batch_size seqlen d where sx: "shape x = [batch_size, seqlen, d]" by blast
  let ?idx = "[num_heads self * head_dim self, num_heads_kv self * head_dim self,
               num_heads_kv self * head_dim self]"
  show ?thesis
  proof (cases "linear (in_proj self) x")
    case (Inl e)
    then have "e = ValueError" by (rule linear_error)
    then show ?thesis using Inl by (simp add: Attention_forward_def sx ebind_def Let_def)
  next
    case (Inr p)
    from split_indices3[of "num_heads self * head_dim self" "num_heads_kv self * head_dim self"
        "num_heads_kv self * head_dim self" p]
    show ?thesis
    proof
      assume "split_indices ?idx p = Inl ValueError"
      then show ?thesis using Inr by (simp add: Attention_forward_def sx ebind_def Let_def)
    next
      assume "\<exists>p0 p1 p2 p3. split_indices ?idx p = Inr [p0, p1, p2, p3]"
      then obtain p0 p1 p2 p3 where "split_indices ?idx p = Inr [p0, p1, p2, p3]" by blast
      then show ?thesis using Inr by (simp add: Attention_forward_def sx ebind_def Let_def)
    qed
  qed
qed

text \<open>
  Claim C9. The attention block is meant to rotate query and key, to leave the value as
  projected and to update the cache with the rotated key and the value. No forward pass
  gets that far: splitting the fused projection at three indices gives four pieces,
  their unpacking into query, key and value raises \<open>ValueError\<close>, and the inference
  parameters, and with them every cache buffer, are as they were before the call.
\<close>

theorem Attention_forward_raises:
  "Attention_forward self x ip freqs = (Inl ValueError, ip)"
  by (rule Attention_forward_ValueError)

text \<open>
  Claim C4. The attention block is meant to call the attention primitive with the
  causal mask enabled exactly when the chunk is longer than 1. On a prefill chunk of
  length 2, with one head of dimension 2 and an allocated cache, the forward pass raises
  \<open>ValueError\<close> before it reaches that call.
\<close>

theorem Attention_forward_prefill_raises:
  "Attention_forward
     \<lparr>num_heads = 1, num_heads_kv = 1, head_dim = 2, layer_idx = 0,
      in_proj = \<lparr>shape = [6, 1], dtype = Float32, elem = (\<lambda>idx. 1 + real (idx ! 0))\<rparr>,
      out_proj = \<lparr>shape = [1, 2], dtype = Float32, elem = (\<lambda>idx. 1)\<rparr>\<rparr>
     \<lparr>shape = [1, 2, 1], dtype = Float32, elem = (\<lambda>idx. if idx ! 1 = 0 then 2 else 3)\<rparr>
     \<lparr>batch_size_offset = 0, seqlen_offset = 0,
      lengths_per_sample = \<lparr>shape = [1], dtype = Int64, elem = (\<lambda>idx. 0)\<rparr>,
      key_value_memory_dict =
        [0 \<mapsto> (\<lparr>shape = [1, 2, 2, 1, 2], dtype = Float32, elem = (\<lambda>idx. 0)\<rparr>, ())]\<rparr>
     \<lparr>shape = [1, 2, 1, 2], dtype = Float32, elem = (\<lambda>idx. real (idx ! 3))\<rparr> =
   (Inl ValueError,
     \<lparr>batch_size_offset = 0, seqlen_offset = 0,
      lengths_per_sample = \<lparr>shape = [1], dtype = Int64, elem = (\<lambda>idx. 0)\<rparr>,
      key_value_memory_dict =
        [0 \<mapsto> (\<lparr>shape = [1, 2, 2, 1, 2], dtype = Float32, elem = (\<lambda>idx. 0)\<rparr>, ())]\<rparr>)"
  by (rule Attention_forward_ValueError)

text \<open>
  Claim C5. The backbone's forward pass is meant to compute the positions
  \<open>arange(chunk_len) + lengths_per_sample\<close>, gather the rotary table at them, run the
  blocks in order and apply the final normalisation. It raises on its first line
  instead: \<open>AttributeError\<close> for hidden states of at least two axes, \<open>IndexError\<close>
  otherwise, with the inference parameters unchanged.
\<close>

theorem MLXZonosBackbone_forward_raises:
  "MLXZonosBackbone_forward self hidden_states ip =
     (Inl (if 2 \<le> length (shape hidden_states) then AttributeError else IndexError), ip)"
proof (cases "shape hidden_states")
  case Nil
  then show ?thesis by (simp add: MLXZonosBackbone_forward_def)
next
  case (Cons b r)
  then show ?thesis by (cases r) (simp_all add: MLXZonosBackbone_forward_def)
qed

end
